theory Spec2Isabelle
  imports Main "HOL-Library.Multiset"
begin

section \<open>The thread pool and its futures\<close>

text \<open>
  The two functions verified here are \<open>_cancel_threads\<close> and \<open>run_in_threads\<close> of
  \<^verbatim>\<open>lisa/util/__init__.py\<close>. Both talk to a \<open>concurrent.futures.ThreadPoolExecutor\<close>
  and to the futures it hands out; these belong to Python's standard library, and
  their methods are modelled after what the library does (the states of a future,
  \<open>done\<close>, \<open>cancel\<close>, \<open>result\<close>, \<open>exception\<close>, \<open>add_done_callback\<close>, \<open>submit\<close>, \<open>shutdown\<close>).
  The pool runs in worker threads, so what the main
  thread sees depends on how far the workers have come. The embedding makes that
  explicit: the world holds the futures of the pool and a schedule, a list of batches
  of pool events. Every call the main thread makes into the pool or into a future is
  preceded by the next batch of the schedule (the work the pool did since the previous
  call); a blocking call keeps consuming batches until it can return, and never
  returns (\<open>None\<close>) when the schedule runs dry before that. A theorem about all
  schedules is a theorem about all interleavings of the workers with the main thread.
\<close>

datatype exn = TaskError nat | FalsyError nat | CancelledError | KeyboardInterrupt | ValueError

text \<open>
  The truth value of an exception object, as \<open>if future.exception():\<close> tests it. An
  exception is true unless its class defines \<open>__bool__\<close> or \<open>__len__\<close> otherwise;
  \<open>FalsyError\<close> stands for the exceptions that test false. \<open>None\<close> tests false.
\<close>

fun truthy :: "exn \<Rightarrow> bool" where
  "truthy (FalsyError n) = False"
| "truthy e = True"

definition truth_value :: "exn option \<Rightarrow> bool" where
  "truth_value x = (case x of None \<Rightarrow> False | Some e \<Rightarrow> truthy e)"

text \<open>The \<open>_state\<close> of a future (\<open>CANCELLED_AND_NOTIFIED\<close> is folded into \<open>CANCELLED\<close>).\<close>

datatype fstate = PENDING | RUNNING | CANCELLED | FINISHED

text \<open>What a worker thread may do: take a queued work item, or complete the one it runs.\<close>

datatype event = Start nat | Finish nat

text \<open>
  The argument of one invocation of \<open>completed_callback\<close>: the future (by its index in
  the submitted batch) when it is invoked as a done-callback, or the literal the sweep
  passes.
\<close>

datatype cbarg = Handle nat | Flag bool

text \<open>
  A method is modelled by what it does when a worker runs it: raise (\<open>Inl\<close>) or return a
  value (\<open>Inr\<close>). A future is identified by its position in the submitted batch.
  \<open>calls\<close> logs the invocations of \<open>completed_callback\<close> in order; the callback itself is
  an observer that returns normally.
\<close>

record 'r world =
  task :: "(exn + 'r) list"
  state :: "fstate list"
  registered :: "bool list"
  calls :: "cbarg list"
  workers :: nat
  sched :: "event list list"

definition is_done :: "fstate \<Rightarrow> bool" where
  "is_done s = (s = CANCELLED \<or> s = FINISHED)"

definition completed_callback :: "cbarg \<Rightarrow> 'r world \<Rightarrow> 'r world" where
  "completed_callback a w = w\<lparr>calls := calls w @ [a]\<rparr>"

text \<open>\<open>Future._invoke_callbacks\<close>: the done-callbacks of a future that became terminal.\<close>

definition invoke_callbacks :: "nat \<Rightarrow> 'r world \<Rightarrow> 'r world" where
  "invoke_callbacks f w = (if registered w ! f then completed_callback (Handle f) w else w)"

text \<open>
  A worker takes the oldest queued item (the work queue is first-in first-out) when
  fewer than \<open>max_workers\<close> items are running; a running item finishes and its
  done-callbacks run in the worker. An event that is not enabled does nothing.
\<close>

fun pool_event :: "event \<Rightarrow> 'r world \<Rightarrow> 'r world" where
  "pool_event (Start f) w =
     (if f < length (state w) \<and> state w ! f = PENDING
         \<and> length (filter (\<lambda>s. s = RUNNING) (state w)) < workers w
         \<and> PENDING \<notin> set (take f (state w))
      then w\<lparr>state := (state w)[f := RUNNING]\<rparr> else w)"
| "pool_event (Finish f) w =
     (if f < length (state w) \<and> state w ! f = RUNNING
      then invoke_callbacks f (w\<lparr>state := (state w)[f := FINISHED]\<rparr>) else w)"

definition pool_step :: "'r world \<Rightarrow> 'r world" where
  "pool_step w =
     (case sched w of [] \<Rightarrow> w | b # bs \<Rightarrow> fold pool_event b (w\<lparr>sched := bs\<rparr>))"

lemma sched_pool_event [simp]: "sched (pool_event e w) = sched w"
  by (cases e) (simp_all add: invoke_callbacks_def completed_callback_def)

lemma sched_fold_pool_event [simp]: "sched (fold pool_event b w) = sched w"
  by (induction b arbitrary: w) simp_all

lemma sched_pool_step [simp]: "sched (pool_step w) = tl (sched w)"
  by (simp add: pool_step_def split: list.splits)

subsection \<open>The methods of the pool and of a future\<close>

text \<open>\<open>ThreadPoolExecutor(max_workers)\<close> rejects a worker count that is not positive.\<close>

definition new_pool :: "nat \<Rightarrow> event list list \<Rightarrow> 'r world" where
  "new_pool n s =
     \<lparr>task = [], state = [], registered = [], calls = [], workers = n, sched = s\<rparr>"

definition ThreadPoolExecutor :: "int \<Rightarrow> event list list \<Rightarrow> exn + 'r world" where
  "ThreadPoolExecutor max_workers s =
     (if max_workers \<le> 0 then Inl ValueError else Inr (new_pool (nat max_workers) s))"

definition submit :: "exn + 'r \<Rightarrow> 'r world \<Rightarrow> nat \<times> 'r world" where
  "submit method w =
     (let w' = pool_step w in
      (length (state w'),
       w'\<lparr>task := task w' @ [method], state := state w' @ [PENDING],
          registered := registered w' @ [False]\<rparr>))"

text \<open>
  \<open>add_done_callback\<close> calls the function at once on a future that is already terminal.
  \<open>registered\<close> is set in both cases; it is read only when a future becomes terminal.
\<close>

definition add_done_callback :: "nat \<Rightarrow> 'r world \<Rightarrow> 'r world" where
  "add_done_callback f w =
     (let w' = pool_step w; w'' = w'\<lparr>registered := (registered w')[f := True]\<rparr> in
      if is_done (state w' ! f) then completed_callback (Handle f) w'' else w'')"

definition future_done :: "nat \<Rightarrow> 'r world \<Rightarrow> bool \<times> 'r world" where
  "future_done f w = (let w' = pool_step w in (is_done (state w' ! f), w'))"

text \<open>
  \<open>cancel\<close> fails on a running or finished future, succeeds on a cancelled one, and
  turns a pending one into a cancelled one, running its done-callbacks.
\<close>

definition future_cancel :: "nat \<Rightarrow> 'r world \<Rightarrow> bool \<times> 'r world" where
  "future_cancel f w =
     (let w' = pool_step w in
      case state w' ! f of
        RUNNING \<Rightarrow> (False, w')
      | FINISHED \<Rightarrow> (False, w')
      | CANCELLED \<Rightarrow> (True, w')
      | PENDING \<Rightarrow> (True, invoke_callbacks f (w'\<lparr>state := (state w')[f := CANCELLED]\<rparr>)))"

text \<open>The condition wait inside \<open>result\<close> and \<open>exception\<close>: block until the future is terminal.\<close>

function wait_done :: "nat \<Rightarrow> 'r world \<Rightarrow> 'r world option" where
  "wait_done f w =
     (if is_done (state w ! f) then Some w
      else if sched w = [] then None
      else wait_done f (pool_step w))"
  by pat_completeness auto

termination
  by (relation "measure (\<lambda>(f, w). length (sched w))") (auto simp: neq_Nil_conv)

declare wait_done.simps [simp del]

definition future_result :: "nat \<Rightarrow> 'r world \<Rightarrow> ((exn + 'r) \<times> 'r world) option" where
  "future_result f w =
     (case wait_done f (pool_step w) of
        None \<Rightarrow> None
      | Some w' \<Rightarrow>
          Some (if state w' ! f = CANCELLED then Inl CancelledError else task w' ! f, w'))"

definition future_exception ::
  "nat \<Rightarrow> 'r world \<Rightarrow> ((exn + exn option) \<times> 'r world) option" where
  "future_exception f w =
     (case wait_done f (pool_step w) of
        None \<Rightarrow> None
      | Some w' \<Rightarrow>
          Some (if state w' ! f = CANCELLED then Inl CancelledError
                else Inr (case task w' ! f of Inl e \<Rightarrow> Some e | Inr v \<Rightarrow> None), w'))"

text \<open>\<open>shutdown(wait=True)\<close> joins the workers: every submitted item is terminal afterwards.\<close>

function join_workers :: "'r world \<Rightarrow> 'r world option" where
  "join_workers w =
     (if list_all is_done (state w) then Some w
      else if sched w = [] then None
      else join_workers (pool_step w))"
  by pat_completeness auto

termination
  by (relation "measure (\<lambda>w. length (sched w))") (auto simp: neq_Nil_conv)

declare join_workers.simps [simp del]

definition shutdown :: "'r world \<Rightarrow> 'r world option" where
  "shutdown w = join_workers (pool_step w)"

section \<open>\<open>_cancel_threads\<close>\<close>

text \<open>
  The branch for a future that is not done: \<open>cancel()\<close>, the callback with \<open>False\<close> when
  the cancellation failed and a callback is supplied (\<open>cb\<close>), and \<open>result()\<close> in any case.
\<close>

definition cancel_branch :: "nat \<Rightarrow> bool \<Rightarrow> 'r world \<Rightarrow> ((exn + 'r) \<times> 'r world) option" where
  "cancel_branch future cb w =
     (let (result, w1) = future_cancel future w;
          w2 = (if \<not> result \<and> cb then completed_callback (Flag False) w1 else w1)
      in future_result future w2)"

text \<open>
  The body of the loop over \<open>futures\<close>. The result is the exception the body raises, or
  whether the future was appended to \<open>success_futures\<close>. The first condition,
  \<open>future.done() and future.exception()\<close>, calls \<open>exception()\<close> only on a future that is
  done and holds when the exception it returns tests true. The second test of \<open>done()\<close>
  is made whenever the first condition is false: the future was not done, or it has no
  exception, or its exception tests false.
\<close>

definition cancel_one :: "nat \<Rightarrow> bool \<Rightarrow> 'r world \<Rightarrow> ((exn + bool) \<times> 'r world) option" where
  "cancel_one future cb w =
     (let (d1, w1) = future_done future w in
      case (if d1 then future_exception future w1 else Some (Inr None, w1)) of
        None \<Rightarrow> None
      | Some (Inl e, w2) \<Rightarrow> Some (Inl e, w2)
      | Some (Inr x, w2) \<Rightarrow>
          if truth_value x then
            (case future_result future w2 of
               None \<Rightarrow> None
             | Some (Inl e', w3) \<Rightarrow> Some (Inl e', w3)
             | Some (Inr v, w3) \<Rightarrow> Some (Inr False, w3))
          else
            (let (d2, w3) = future_done future w2 in
             if \<not> d2 then
               (case cancel_branch future cb w3 of
                  None \<Rightarrow> None
                | Some (Inl e, w4) \<Rightarrow> Some (Inl e, w4)
                | Some (Inr v, w4) \<Rightarrow> Some (Inr False, w4))
             else Some (Inr True, w3)))"

fun cancel_loop ::
  "nat list \<Rightarrow> bool \<Rightarrow> nat list \<Rightarrow> 'r world \<Rightarrow> ((exn + nat list) \<times> 'r world) option" where
  "cancel_loop [] cb success_futures w = Some (Inr success_futures, w)"
| "cancel_loop (future # futures) cb success_futures w =
     (case cancel_one future cb w of
        None \<Rightarrow> None
      | Some (Inl e, w') \<Rightarrow> Some (Inl e, w')
      | Some (Inr keep, w') \<Rightarrow>
          cancel_loop futures cb (if keep then success_futures @ [future] else success_futures) w')"

definition cancel_threads ::
  "nat list \<Rightarrow> bool \<Rightarrow> 'r world \<Rightarrow> ((exn + nat list) \<times> 'r world) option" where
  "cancel_threads futures cb w = cancel_loop futures cb [] w"

section \<open>\<open>run_in_threads\<close>\<close>

text \<open>\<open>[pool.submit(method) for method in methods]\<close> and the loop of \<open>add_done_callback\<close>.\<close>

fun submit_all :: "(exn + 'r) list \<Rightarrow> 'r world \<Rightarrow> nat list \<times> 'r world" where
  "submit_all [] w = ([], w)"
| "submit_all (method # methods) w =
     (let (future, w1) = submit method w; (futures, w2) = submit_all methods w1
      in (future # futures, w2))"

fun add_callbacks :: "nat list \<Rightarrow> 'r world \<Rightarrow> 'r world" where
  "add_callbacks [] w = w"
| "add_callbacks (future # futures) w = add_callbacks futures (add_done_callback future w)"

text \<open>
  Ctrl+C can reach the main thread between any two steps it makes inside the \<open>try\<close>
  block: the calls of \<open>done()\<close>, \<open>futures.remove\<close>, \<open>result()\<close>, \<open>results.append\<close> and
  \<open>time.sleep\<close>. \<open>sigint\<close> is the number of such steps that complete before it arrives
  (\<open>None\<close>: it does not arrive inside the \<open>try\<close> block); a step that finds \<open>Some 0\<close> raises
  \<open>KeyboardInterrupt\<close> instead of running. A signal outside the \<open>try\<close> block is not
  modelled. A method that itself raises \<open>KeyboardInterrupt\<close> has it re-raised by
  \<open>result()\<close> inside the \<open>try\<close> block, where the handler catches it as well.
\<close>

definition later :: "nat option \<Rightarrow> nat option" where
  "later sigint = map_option (\<lambda>k. k - 1) sigint"

definition left :: "nat option \<Rightarrow> nat" where
  "left sigint = (case sigint of None \<Rightarrow> 0 | Some k \<Rightarrow> k)"

text \<open>\<open>any(not x.done() for x in futures)\<close> stops at the first future that is not done.\<close>

fun any_not_done ::
  "nat option \<Rightarrow> nat list \<Rightarrow> 'r world \<Rightarrow> (exn + bool) \<times> nat option \<times> 'r world" where
  "any_not_done sigint [] w = (Inr False, sigint, w)"
| "any_not_done sigint (x # xs) w =
     (if sigint = Some 0 then (Inl KeyboardInterrupt, sigint, w)
      else let (d, w') = future_done x w in
           if \<not> d then (Inr True, later sigint, w') else any_not_done (later sigint) xs w')"

text \<open>The scan of the inner \<open>for\<close> loop, up to the first future whose \<open>done()\<close> holds.\<close>

fun first_done ::
  "nat option \<Rightarrow> nat list \<Rightarrow> 'r world \<Rightarrow> (exn + nat option) \<times> nat option \<times> 'r world" where
  "first_done sigint [] w = (Inr None, sigint, w)"
| "first_done sigint (future # futures) w =
     (if sigint = Some 0 then (Inl KeyboardInterrupt, sigint, w)
      else let (d, w') = future_done future w in
           if d then (Inr (Some future), later sigint, w')
           else first_done (later sigint) futures w')"

text \<open>The pool goes on working while the main thread sleeps.\<close>

definition sleep :: "'r world \<Rightarrow> 'r world" where
  "sleep w = pool_step w"

lemma wait_done_sched: "wait_done f w = Some w' \<Longrightarrow> length (sched w') \<le> length (sched w)"
proof (induction f w rule: wait_done.induct)
  case (1 f w)
  show ?case
  proof (cases "is_done (state w ! f)")
    case True
    with "1.prems" show ?thesis by (simp add: wait_done.simps [of f w])
  next
    case False
    then have ne: "sched w \<noteq> []" and rec: "wait_done f (pool_step w) = Some w'"
      using "1.prems" by (auto simp: wait_done.simps [of f w] split: if_splits)
    from "1.IH" [OF False ne rec] show ?thesis by simp
  qed
qed

lemma future_result_sched:
  "future_result f w = Some (r, w') \<Longrightarrow> length (sched w') \<le> length (sched w)"
  by (auto simp: future_result_def split: option.splits dest!: wait_done_sched)

lemma future_done_sched: "future_done f w = (d, w') \<Longrightarrow> sched w' = tl (sched w)"
  by (auto simp: future_done_def Let_def)

lemma left_later: "left (later sigint) \<le> left sigint"
  by (cases sigint) (simp_all add: left_def later_def)

lemma left_later_less: "sigint \<noteq> Some 0 \<Longrightarrow> sigint \<noteq> None \<Longrightarrow> left (later sigint) < left sigint"
  by (cases sigint) (simp_all add: left_def later_def)

lemma later_None [simp]: "(later sigint = None) = (sigint = None)"
  by (simp add: later_def)

lemma any_not_done_le:
  "any_not_done sigint xs w = (r, sg, w') \<Longrightarrow>
   length (sched w') \<le> length (sched w) \<and> left sg \<le> left sigint \<and> (sg = None) = (sigint = None)"
proof (induction xs arbitrary: sigint w)
  case Nil
  then show ?case by simp
next
  case (Cons x xs)
  show ?case
  proof (cases "sigint = Some 0")
    case True
    with Cons.prems show ?thesis by simp
  next
    case False
    obtain d w1 where d: "future_done x w = (d, w1)" by (cases "future_done x w")
    then have l: "length (sched w1) \<le> length (sched w)" by (simp add: future_done_sched)
    show ?thesis
    proof (cases d)
      case True
      with Cons.prems False d have "any_not_done (later sigint) xs w1 = (r, sg, w')" by simp
      from Cons.IH [OF this] l left_later [of sigint] show ?thesis by simp
    next
      case no: False
      with Cons.prems False d l left_later [of sigint] show ?thesis by auto
    qed
  qed
qed

lemma any_not_done_busy:
  "any_not_done sigint xs w = (Inr True, sg, w') \<Longrightarrow>
   (sched w \<noteq> [] \<longrightarrow> length (sched w') < length (sched w))
   \<and> (sigint \<noteq> None \<longrightarrow> left sg < left sigint)"
proof (induction xs arbitrary: sigint w)
  case Nil
  then show ?case by simp
next
  case (Cons x xs)
  from Cons.prems have ns: "sigint \<noteq> Some 0" by (auto split: if_splits)
  obtain d w1 where d: "future_done x w = (d, w1)" by (cases "future_done x w")
  then have l: "sched w \<noteq> [] \<longrightarrow> length (sched w1) < length (sched w)"
    by (simp add: future_done_sched)
  have k: "sigint \<noteq> None \<longrightarrow> left (later sigint) < left sigint"
    using ns by (simp add: left_later_less)
  show ?case
  proof (cases d)
    case True
    with Cons.prems ns d have "any_not_done (later sigint) xs w1 = (Inr True, sg, w')" by simp
    from any_not_done_le [OF this] l k show ?thesis by auto
  next
    case False
    with Cons.prems ns d l k show ?thesis by auto
  qed
qed

lemma first_done_le:
  "first_done sigint xs w = (r, sg, w') \<Longrightarrow>
   length (sched w') \<le> length (sched w) \<and> left sg \<le> left sigint \<and> (sg = None) = (sigint = None)"
proof (induction xs arbitrary: sigint w)
  case Nil
  then show ?case by simp
next
  case (Cons x xs)
  show ?case
  proof (cases "sigint = Some 0")
    case True
    with Cons.prems show ?thesis by simp
  next
    case False
    obtain d w1 where d: "future_done x w = (d, w1)" by (cases "future_done x w")
    then have l: "length (sched w1) \<le> length (sched w)" by (simp add: future_done_sched)
    show ?thesis
    proof (cases d)
      case no: False
      with Cons.prems False d have "first_done (later sigint) xs w1 = (r, sg, w')" by simp
      from Cons.IH [OF this] l left_later [of sigint] show ?thesis by simp
    next
      case True
      with Cons.prems False d l left_later [of sigint] show ?thesis by auto
    qed
  qed
qed

lemma first_done_mem: "first_done sigint xs w = (Inr (Some f), sg, w') \<Longrightarrow> f \<in> set xs"
proof (induction xs arbitrary: sigint w)
  case Nil
  then show ?case by simp
next
  case (Cons x xs)
  obtain d w1 where d: "future_done x w = (d, w1)" by (cases "future_done x w")
  with Cons.prems Cons.IH [of "later sigint" w1] show ?case by (auto split: if_splits)
qed

text \<open>
  The \<open>while\<close> loop of the \<open>try\<close> block. It ends with the exception that left the loop
  (if any), the list \<open>futures\<close> and the list \<open>results\<close>. An interrupt between
  \<open>futures.remove(future)\<close> and \<open>results.append\<close> leaves the future in neither list. When
  a pass that began with the schedule already exhausted found a future not done and
  none done, and no interrupt is to come, every later pass sees the same: the loop
  sleeps and polls forever.
\<close>

function poll ::
  "nat option \<Rightarrow> nat list \<Rightarrow> 'r list \<Rightarrow> 'r world
     \<Rightarrow> ((exn option \<times> nat list \<times> 'r list) \<times> 'r world) option" where
  "poll sigint futures results w =
     (case any_not_done sigint futures w of
        (Inl e, sg1, w1) \<Rightarrow> Some ((Some e, futures, results), w1)
      | (Inr False, sg1, w1) \<Rightarrow> Some ((None, futures, results), w1)
      | (Inr True, sg1, w1) \<Rightarrow>
          (case first_done sg1 futures w1 of
             (Inl e, sg2, w2) \<Rightarrow> Some ((Some e, futures, results), w2)
           | (Inr (Some future), sg2, w2) \<Rightarrow>
               if sg2 = Some 0 then Some ((Some KeyboardInterrupt, futures, results), w2)
               else if later sg2 = Some 0
               then Some ((Some KeyboardInterrupt, remove1 future futures, results), w2)
               else
                 (case future_result future w2 of
                    None \<Rightarrow> None
                  | Some (Inl e, w3) \<Rightarrow> Some ((Some e, remove1 future futures, results), w3)
                  | Some (Inr v, w3) \<Rightarrow>
                      if later (later sg2) = Some 0
                      then Some ((Some KeyboardInterrupt, remove1 future futures, results), w3)
                      else poll (later (later (later sg2))) (remove1 future futures)
                             (results @ [v]) w3)
           | (Inr None, sg2, w2) \<Rightarrow>
               if sg2 = Some 0 then Some ((Some KeyboardInterrupt, futures, results), w2)
               else if sched w = [] \<and> sigint = None then None
               else poll (later sg2) futures results (sleep w2)))"
  by pat_completeness auto
termination
proof (relation "measure (\<lambda>(sigint, futures, results, w).
         length (sched w) + left sigint + length futures)", goal_cases)
  case 1
  show ?case by simp
next
  case (2 sigint futures results w x y b sg1 w1 xb yb ba sg2 w2)
  have a: "any_not_done sigint futures w = (Inr True, sg1, w1)" using 2 by simp
  have f: "first_done sg1 futures w1 = (Inr None, sg2, w2)" using 2 by simp
  note a1 = any_not_done_le [OF a] and a2 = any_not_done_busy [OF a] and f1 = first_done_le [OF f]
  have s: "length (sched (sleep w2)) \<le> length (sched w2)" by (simp add: sleep_def)
  show ?case
  proof (cases "sigint = None")
    case True
    with 2 have "sched w \<noteq> []" by simp
    with a2 have "length (sched w1) < length (sched w)" by simp
    moreover have "left (later sg2) \<le> left sigint"
      using a1 f1 left_later [of sg2] by simp
    ultimately show ?thesis using f1 s by simp
  next
    case False
    with a2 have "left sg1 < left sigint" by simp
    moreover have "left (later sg2) \<le> left sg1" using f1 left_later [of sg2] by simp
    ultimately show ?thesis using a1 f1 s by simp
  qed
next
  case (3 sigint futures results w x y b sg1 w1 xb yb ba future sg2 w2 x2a r w3 v)
  have a: "any_not_done sigint futures w = (Inr True, sg1, w1)" using 3 by simp
  have f: "first_done sg1 futures w1 = (Inr (Some future), sg2, w2)" using 3 by simp
  have r: "future_result future w2 = Some (r, w3)" using 3 by simp
  note a1 = any_not_done_le [OF a] and f1 = first_done_le [OF f]
  have "length (sched w3) \<le> length (sched w)"
    using a1 f1 future_result_sched [OF r] by simp
  moreover have "left (later (later (later sg2))) \<le> left sigint"
    using a1 f1 left_later [of sg2] left_later [of "later sg2"] left_later [of "later (later sg2)"]
    by simp
  moreover have "future \<in> set futures" using f by (rule first_done_mem)
  then have "length (remove1 future futures) < length futures"
    using length_pos_if_in_set [of future futures] by (simp add: length_remove1)
  ultimately show ?case by simp
qed

declare poll.simps [simp del]

text \<open>The final \<open>for\<close> loop: \<open>results.append(future.result())\<close>.\<close>

fun collect ::
  "nat list \<Rightarrow> 'r list \<Rightarrow> 'r world \<Rightarrow> ((exn + 'r list) \<times> 'r world) option" where
  "collect [] results w = Some (Inr results, w)"
| "collect (future # futures) results w =
     (case future_result future w of
        None \<Rightarrow> None
      | Some (Inl e, w') \<Rightarrow> Some (Inl e, w')
      | Some (Inr v, w') \<Rightarrow> collect futures (results @ [v]) w')"

text \<open>
  The \<open>try\<close> block with its \<open>except KeyboardInterrupt\<close> handler. The first component of
  the result is the exception that is still propagating when the \<open>finally\<close> clause is
  entered.
\<close>

definition try_except ::
  "nat option \<Rightarrow> bool \<Rightarrow> nat list \<Rightarrow> 'r list \<Rightarrow> 'r world
     \<Rightarrow> ((exn option \<times> nat list \<times> 'r list) \<times> 'r world) option" where
  "try_except sigint cb futures results w =
     (case poll sigint futures results w of
        None \<Rightarrow> None
      | Some ((exc, futures', results'), w1) \<Rightarrow>
          if exc = Some KeyboardInterrupt then
            (case cancel_threads futures' cb w1 of
               None \<Rightarrow> None
             | Some (Inl e, w2) \<Rightarrow> Some ((Some e, futures', results'), w2)
             | Some (Inr kept, w2) \<Rightarrow>
                 (case shutdown w2 of
                    None \<Rightarrow> None
                  | Some w3 \<Rightarrow> Some ((None, kept, results'), w3)))
          else Some ((exc, futures', results'), w1))"

text \<open>
  The \<open>finally\<close> clause and the statements after it. An exception of the sweep replaces
  the one that was propagating; otherwise that one is re-raised; otherwise the results
  of the futures the sweep returned are appended.
\<close>

definition finally_clause ::
  "bool \<Rightarrow> exn option \<Rightarrow> nat list \<Rightarrow> 'r list \<Rightarrow> 'r world
     \<Rightarrow> ((exn + 'r list) \<times> 'r world) option" where
  "finally_clause cb exc futures results w =
     (case cancel_threads futures cb w of
        None \<Rightarrow> None
      | Some (Inl e, w1) \<Rightarrow> Some (Inl e, w1)
      | Some (Inr kept, w1) \<Rightarrow>
          (case exc of
             Some e \<Rightarrow> Some (Inl e, w1)
           | None \<Rightarrow> collect kept results w1))"

text \<open>The body of the \<open>with\<close> statement.\<close>

definition with_pool ::
  "(exn + 'r) list \<Rightarrow> bool \<Rightarrow> nat option \<Rightarrow> 'r list \<Rightarrow> 'r world
     \<Rightarrow> ((exn + 'r list) \<times> 'r world) option" where
  "with_pool methods cb sigint results pool =
     (let (futures, w1) = submit_all methods pool;
          w2 = (if cb then add_callbacks futures w1 else w1)
      in case try_except sigint cb futures results w2 of
           None \<Rightarrow> None
         | Some ((exc, futures', results'), w3) \<Rightarrow> finally_clause cb exc futures' results' w3)"

text \<open>Leaving the \<open>with\<close> statement, normally or by an exception, calls \<open>shutdown(wait=True)\<close>.\<close>

definition pool_exit ::
  "('a \<times> 'r world) option \<Rightarrow> ('a \<times> 'r world) option" where
  "pool_exit r =
     (case r of
        None \<Rightarrow> None
      | Some (x, w) \<Rightarrow> (case shutdown w of None \<Rightarrow> None | Some w' \<Rightarrow> Some (x, w')))"

text \<open>
  \<open>run_in_threads methods max_workers completed_callback\<close>; \<open>cb\<close> tells whether a
  callback is supplied, \<open>sigint\<close> and \<open>schedule\<close> are what the outside world does during
  the call. The result is \<open>None\<close> when the call never returns, \<open>Inl\<close> the exception it
  raises, or \<open>Inr\<close> the list it returns, with the world it leaves behind.
\<close>

definition run_in_threads ::
  "(exn + 'r) list \<Rightarrow> int \<Rightarrow> bool \<Rightarrow> nat option \<Rightarrow> event list list
     \<Rightarrow> ((exn + 'r list) \<times> 'r world) option" where
  "run_in_threads methods max_workers cb sigint schedule =
     (let results = [];
          max_workers' = (if max_workers \<le> 0 then int (length methods) else max_workers)
      in case ThreadPoolExecutor max_workers' schedule of
           Inl e \<Rightarrow> Some (Inl e, new_pool 0 schedule)
         | Inr pool \<Rightarrow> pool_exit (with_pool methods cb sigint results pool))"

section \<open>What the pool never changes\<close>

lemma pool_event_frame [simp]:
  "task (pool_event e w) = task w"
  "registered (pool_event e w) = registered w"
  "workers (pool_event e w) = workers w"
  "length (state (pool_event e w)) = length (state w)"
  by (cases e; simp add: invoke_callbacks_def completed_callback_def)+

lemma fold_pool_event_frame [simp]:
  "task (fold pool_event b w) = task w"
  "registered (fold pool_event b w) = registered w"
  "workers (fold pool_event b w) = workers w"
  "length (state (fold pool_event b w)) = length (state w)"
  by (induction b arbitrary: w; simp)+

lemma pool_step_frame [simp]:
  "task (pool_step w) = task w"
  "registered (pool_step w) = registered w"
  "workers (pool_step w) = workers w"
  "length (state (pool_step w)) = length (state w)"
  by (simp_all add: pool_step_def split: list.splits)

text \<open>A terminal future stays as it is.\<close>

lemma pool_event_done_stable:
  "is_done (state w ! f) \<Longrightarrow> state (pool_event e w) ! f = state w ! f"
  by (cases e) (auto simp: is_done_def invoke_callbacks_def completed_callback_def nth_list_update)

lemma fold_pool_event_done_stable:
  "is_done (state w ! f) \<Longrightarrow> state (fold pool_event b w) ! f = state w ! f"
  by (induction b arbitrary: w) (simp_all add: pool_event_done_stable)

lemma pool_step_done_stable:
  "is_done (state w ! f) \<Longrightarrow> state (pool_step w) ! f = state w ! f"
  by (simp add: pool_step_def fold_pool_event_done_stable split: list.splits)

section \<open>Terminal futures\<close>

lemma pool_step_idle: "sched w = [] \<Longrightarrow> pool_step w = w"
  by (simp add: pool_step_def)

lemma wait_done_done: "is_done (state w ! f) \<Longrightarrow> wait_done f w = Some w"
  by (simp add: wait_done.simps [of f w])

lemma future_done_done:
  "is_done (state w ! f) \<Longrightarrow> future_done f w = (True, pool_step w)"
  by (simp add: future_done_def pool_step_done_stable)

lemma future_result_done:
  "is_done (state w ! f) \<Longrightarrow>
   future_result f w =
     Some (if state w ! f = CANCELLED then Inl CancelledError else task w ! f, pool_step w)"
  by (simp add: future_result_def wait_done_done pool_step_done_stable)

lemma future_exception_done:
  "is_done (state w ! f) \<Longrightarrow>
   future_exception f w =
     Some (if state w ! f = CANCELLED then Inl CancelledError
           else Inr (case task w ! f of Inl e \<Rightarrow> Some e | Inr v \<Rightarrow> None), pool_step w)"
  by (simp add: future_exception_def wait_done_done pool_step_done_stable)

text \<open>What the body of the sweep does with a terminal future.\<close>

lemma cancel_one_done:
  assumes "is_done (state w ! f)"
  shows "cancel_one f cb w =
     (if state w ! f = CANCELLED then Some (Inl CancelledError, pool_step (pool_step w))
      else case task w ! f of
             Inl e \<Rightarrow> Some (if truthy e then Inl e else Inr True,
                             pool_step (pool_step (pool_step w)))
           | Inr v \<Rightarrow> Some (Inr True, pool_step (pool_step (pool_step w))))"
proof -
  have d1: "is_done (state (pool_step w) ! f)"
    using assms by (simp add: pool_step_done_stable)
  have d2: "is_done (state (pool_step (pool_step w)) ! f)"
    using d1 by (simp add: pool_step_done_stable)
  show ?thesis
    using assms d1 d2
    by (simp add: cancel_one_def future_done_done future_exception_done future_result_done
        pool_step_done_stable truth_value_def split: sum.splits)
qed

definition settled :: "nat list \<Rightarrow> 'r world \<Rightarrow> bool" where
  "settled fs w = list_all (\<lambda>f. f < length (state w) \<and> is_done (state w ! f)) fs"

text \<open>What \<open>result()\<close> gives on a terminal future.\<close>

definition outcome :: "'r world \<Rightarrow> nat \<Rightarrow> exn + 'r" where
  "outcome w f = (if state w ! f = CANCELLED then Inl CancelledError else task w ! f)"

text \<open>The exception of the first future of the list that is cancelled or has failed.\<close>

fun first_raise :: "'r world \<Rightarrow> nat list \<Rightarrow> exn option" where
  "first_raise w [] = None"
| "first_raise w (f # fs) =
     (case outcome w f of Inl e \<Rightarrow> Some e | Inr v \<Rightarrow> first_raise w fs)"

text \<open>
  The exception of the first future of the list that is cancelled, or has failed with
  an exception that tests true: a sweep over terminal futures raises for these only.
\<close>

fun sweep_raise :: "'r world \<Rightarrow> nat list \<Rightarrow> exn option" where
  "sweep_raise w [] = None"
| "sweep_raise w (f # fs) =
     (case outcome w f of
        Inl e \<Rightarrow> if truthy e then Some e else sweep_raise w fs
      | Inr v \<Rightarrow> sweep_raise w fs)"

lemma funpow_pool_step_frame [simp]:
  "task ((pool_step ^^ k) w) = task w"
  "registered ((pool_step ^^ k) w) = registered w"
  "workers ((pool_step ^^ k) w) = workers w"
  "length (state ((pool_step ^^ k) w)) = length (state w)"
  by (induction k; simp)+

lemma funpow_pool_step_done_stable:
  "is_done (state w ! f) \<Longrightarrow> state ((pool_step ^^ k) w) ! f = state w ! f"
  by (induction k) (simp_all add: pool_step_done_stable)

lemma funpow_pool_step_idle: "sched w = [] \<Longrightarrow> (pool_step ^^ k) w = w"
  by (induction k) (simp_all add: pool_step_idle)

lemma settled_steps: "settled fs w \<Longrightarrow> settled fs ((pool_step ^^ k) w)"
  by (simp add: settled_def list_all_iff funpow_pool_step_done_stable)

lemma outcome_steps:
  "is_done (state w ! f) \<Longrightarrow> outcome ((pool_step ^^ k) w) f = outcome w f"
  by (simp add: outcome_def funpow_pool_step_done_stable)

lemma first_raise_steps:
  "settled fs w \<Longrightarrow> first_raise ((pool_step ^^ k) w) fs = first_raise w fs"
  by (induction fs) (simp_all add: settled_def outcome_steps split: sum.splits)

lemma sweep_raise_steps:
  "settled fs w \<Longrightarrow> sweep_raise ((pool_step ^^ k) w) fs = sweep_raise w fs"
  by (induction fs) (simp_all add: settled_def outcome_steps split: sum.splits)

lemma sweep_raise_first_raise: "first_raise w fs = None \<Longrightarrow> sweep_raise w fs = None"
  by (induction fs) (simp_all split: sum.splits)

lemma cancel_one_settled:
  assumes "is_done (state w ! f)"
  shows "\<exists>k. cancel_one f cb w =
           Some (case sweep_raise w [f] of Some e \<Rightarrow> Inl e | None \<Rightarrow> Inr True,
                 (pool_step ^^ k) w)"
proof (cases "state w ! f = CANCELLED")
  case True
  with assms have "cancel_one f cb w =
      Some (case sweep_raise w [f] of Some e \<Rightarrow> Inl e | None \<Rightarrow> Inr True,
            (pool_step ^^ 2) w)"
    by (simp add: cancel_one_done outcome_def numeral_2_eq_2)
  then show ?thesis ..
next
  case False
  with assms have "cancel_one f cb w =
      Some (case sweep_raise w [f] of Some e \<Rightarrow> Inl e | None \<Rightarrow> Inr True,
            (pool_step ^^ 3) w)"
    by (simp add: cancel_one_done outcome_def numeral_3_eq_3 split: sum.splits)
  then show ?thesis ..
qed

lemma cancel_loop_settled:
  "settled fs w \<Longrightarrow>
   \<exists>k. cancel_loop fs cb acc w =
     Some (case sweep_raise w fs of Some e \<Rightarrow> Inl e | None \<Rightarrow> Inr (acc @ fs),
           (pool_step ^^ k) w)"
proof (induction fs arbitrary: acc w)
  case Nil
  have "cancel_loop [] cb acc w =
      Some (case sweep_raise w [] of Some e \<Rightarrow> Inl e | None \<Rightarrow> Inr (acc @ []),
            (pool_step ^^ 0) w)"
    by simp
  then show ?case ..
next
  case (Cons f fs)
  have d: "is_done (state w ! f)" and rest: "settled fs w"
    using Cons.prems by (simp_all add: settled_def)
  obtain k where one: "cancel_one f cb w =
      Some (case sweep_raise w [f] of Some e \<Rightarrow> Inl e | None \<Rightarrow> Inr True,
            (pool_step ^^ k) w)"
    using cancel_one_settled [OF d] by blast
  show ?case
  proof (cases "sweep_raise w [f]")
    case (Some e)
    then have "sweep_raise w (f # fs) = Some e"
      by (simp split: sum.splits if_splits)
    with one Some have "cancel_loop (f # fs) cb acc w =
        Some (case sweep_raise w (f # fs) of Some e \<Rightarrow> Inl e | None \<Rightarrow> Inr (acc @ f # fs),
              (pool_step ^^ k) w)"
      by simp
    then show ?thesis ..
  next
    case None
    then have same: "sweep_raise w (f # fs) = sweep_raise w fs"
      by (simp split: sum.splits if_splits)
    let ?w = "(pool_step ^^ k) w"
    have "settled fs ?w" using rest by (rule settled_steps)
    from Cons.IH [OF this, of "acc @ [f]"] obtain j where
      "cancel_loop fs cb (acc @ [f]) ?w =
         Some (case sweep_raise ?w fs of Some e \<Rightarrow> Inl e | None \<Rightarrow> Inr ((acc @ [f]) @ fs),
               (pool_step ^^ j) ?w)"
      by blast
    with None one same have "cancel_loop (f # fs) cb acc w =
        Some (case sweep_raise w (f # fs) of Some e \<Rightarrow> Inl e | None \<Rightarrow> Inr (acc @ f # fs),
              (pool_step ^^ (j + k)) w)"
      by (simp add: sweep_raise_steps [OF rest] funpow_add split: option.splits)
    then show ?thesis ..
  qed
qed

lemma cancel_threads_settled_idle:
  assumes "settled fs w" "sched w = []"
  shows "cancel_threads fs cb w =
     Some (case sweep_raise w fs of Some e \<Rightarrow> Inl e | None \<Rightarrow> Inr fs, w)"
  using cancel_loop_settled [OF assms(1), of cb "[]"] assms(2)
  by (auto simp: cancel_threads_def funpow_pool_step_idle split: option.splits)

lemma cancel_loop_append:
  "cancel_loop (xs @ ys) cb acc w =
     (case cancel_loop xs cb acc w of
        None \<Rightarrow> None
      | Some (Inl e, w') \<Rightarrow> Some (Inl e, w')
      | Some (Inr acc', w') \<Rightarrow> cancel_loop ys cb acc' w')"
  by (induction xs arbitrary: acc w) (auto split: option.splits sum.splits)

lemma future_cancel_True:
  "future_cancel f w = (True, w') \<Longrightarrow> f < length (state w) \<Longrightarrow> state w' ! f = CANCELLED"
  by (auto simp: future_cancel_def Let_def invoke_callbacks_def completed_callback_def
      split: fstate.splits if_splits)

lemma future_cancel_False:
  "future_cancel f w = (False, w') \<Longrightarrow>
   w' = pool_step w \<and> (state w' ! f = RUNNING \<or> state w' ! f = FINISHED)"
  by (auto simp: future_cancel_def Let_def split: fstate.splits)

section \<open>Steps of the world\<close>

text \<open>
  Everything the two functions do to the world is a sequence of three kinds of steps:
  a batch of pool events, the cancellation of a pending future, and a call of the
  callback with \<open>False\<close>. Facts that hold across such steps hold across every call.
\<close>

inductive step :: "'r world \<Rightarrow> 'r world \<Rightarrow> bool" where
  pool: "step w (pool_step w)"
| cancel: "f < length (state w) \<Longrightarrow> state w ! f = PENDING \<Longrightarrow>
     step w (invoke_callbacks f (w\<lparr>state := (state w)[f := CANCELLED]\<rparr>))"
| flag: "step w (completed_callback (Flag False) w)"

text \<open>The futures of a list are futures of the pool.\<close>

definition valid :: "nat list \<Rightarrow> 'r world \<Rightarrow> bool" where
  "valid fs w = list_all (\<lambda>f. f < length (state w)) fs"

lemma step_frame:
  "step w w' \<Longrightarrow>
   task w' = task w \<and> registered w' = registered w \<and> workers w' = workers w
   \<and> length (state w') = length (state w)"
  by (induction rule: step.induct)
     (simp_all add: invoke_callbacks_def completed_callback_def)

lemma steps_frame:
  "step\<^sup>*\<^sup>* w w' \<Longrightarrow>
   task w' = task w \<and> registered w' = registered w \<and> workers w' = workers w
   \<and> length (state w') = length (state w)"
  by (induction rule: rtranclp_induct) (auto dest: step_frame)

lemma step_done_stable:
  "step w w' \<Longrightarrow> is_done (state w ! f) \<Longrightarrow> state w' ! f = state w ! f"
  by (induction rule: step.induct)
     (auto simp: invoke_callbacks_def completed_callback_def pool_step_done_stable
        is_done_def nth_list_update)

lemma steps_done_stable:
  "step\<^sup>*\<^sup>* w w' \<Longrightarrow> is_done (state w ! f) \<Longrightarrow> state w' ! f = state w ! f"
proof (induction rule: rtranclp_induct)
  case base
  show ?case by simp
next
  case (step y z)
  then have "is_done (state y ! f)" by simp
  with step show ?case by (simp add: step_done_stable)
qed

lemma steps_index: "step\<^sup>*\<^sup>* w w' \<Longrightarrow> f < length (state w) \<Longrightarrow> f < length (state w')"
  by (simp add: steps_frame)

lemma steps_valid: "step\<^sup>*\<^sup>* w w' \<Longrightarrow> valid fs w' = valid fs w"
  by (simp add: valid_def steps_frame)

lemma steps_pool_step: "step\<^sup>*\<^sup>* w (pool_step w)"
  by (simp add: step.pool r_into_rtranclp)

lemma steps_funpow: "step\<^sup>*\<^sup>* w ((pool_step ^^ k) w)"
proof (induction k)
  case 0
  show ?case by simp
next
  case (Suc k)
  have "step ((pool_step ^^ k) w) ((pool_step ^^ Suc k) w)" by (simp add: step.pool)
  with Suc show ?case by (rule rtranclp.rtrancl_into_rtrancl)
qed

lemma steps_future_done: "future_done f w = (d, w') \<Longrightarrow> step\<^sup>*\<^sup>* w w'"
  by (auto simp: future_done_def Let_def steps_pool_step)

lemma steps_wait_done: "wait_done f w = Some w' \<Longrightarrow> step\<^sup>*\<^sup>* w w'"
proof (induction f w rule: wait_done.induct)
  case (1 f w)
  show ?case
  proof (cases "is_done (state w ! f)")
    case True
    with "1.prems" show ?thesis by (simp add: wait_done.simps [of f w])
  next
    case False
    then have ne: "sched w \<noteq> []" and rec: "wait_done f (pool_step w) = Some w'"
      using "1.prems" by (auto simp: wait_done.simps [of f w] split: if_splits)
    from "1.IH" [OF False ne rec] have "step\<^sup>*\<^sup>* (pool_step w) w'" .
    with steps_pool_step [of w] show ?thesis by (rule rtranclp_trans)
  qed
qed

lemma steps_future_result: "future_result f w = Some (r, w') \<Longrightarrow> step\<^sup>*\<^sup>* w w'"
proof -
  assume "future_result f w = Some (r, w')"
  then have "wait_done f (pool_step w) = Some w'"
    by (auto simp: future_result_def split: option.splits)
  then have "step\<^sup>*\<^sup>* (pool_step w) w'" by (rule steps_wait_done)
  with steps_pool_step [of w] show ?thesis by (rule rtranclp_trans)
qed

lemma steps_future_exception: "future_exception f w = Some (r, w') \<Longrightarrow> step\<^sup>*\<^sup>* w w'"
proof -
  assume "future_exception f w = Some (r, w')"
  then have "wait_done f (pool_step w) = Some w'"
    by (auto simp: future_exception_def split: option.splits)
  then have "step\<^sup>*\<^sup>* (pool_step w) w'" by (rule steps_wait_done)
  with steps_pool_step [of w] show ?thesis by (rule rtranclp_trans)
qed

lemma steps_future_cancel:
  assumes "future_cancel f w = (b, w')" "f < length (state w)"
  shows "step\<^sup>*\<^sup>* w w'"
proof (cases "state (pool_step w) ! f = PENDING")
  case True
  with assms have "w' = invoke_callbacks f
      ((pool_step w)\<lparr>state := (state (pool_step w))[f := CANCELLED]\<rparr>)"
    by (simp add: future_cancel_def Let_def)
  with True assms(2) have "step (pool_step w) w'" by (simp add: step.cancel)
  with steps_pool_step [of w] show ?thesis by (rule rtranclp.rtrancl_into_rtrancl)
next
  case False
  with assms have "w' = pool_step w"
    by (auto simp: future_cancel_def Let_def split: fstate.splits)
  then show ?thesis by (simp add: steps_pool_step)
qed

lemma steps_cancel_branch:
  assumes "cancel_branch f cb w = Some (r, w')" "f < length (state w)"
  shows "step\<^sup>*\<^sup>* w w'"
proof -
  obtain b w1 where c: "future_cancel f w = (b, w1)" by (cases "future_cancel f w")
  let ?w2 = "if \<not> b \<and> cb then completed_callback (Flag False) w1 else w1"
  have a: "step\<^sup>*\<^sup>* w w1" using c assms(2) by (rule steps_future_cancel)
  have b: "step\<^sup>*\<^sup>* w1 ?w2" by (simp add: step.flag r_into_rtranclp)
  have "future_result f ?w2 = Some (r, w')"
    using assms(1) c by (simp add: cancel_branch_def)
  then have "step\<^sup>*\<^sup>* ?w2 w'" by (rule steps_future_result)
  with a b show ?thesis by (meson rtranclp_trans)
qed

lemma steps_cancel_one:
  assumes "cancel_one f cb w = Some (r, w')" "f < length (state w)"
  shows "step\<^sup>*\<^sup>* w w'"
  using assms unfolding cancel_one_def Let_def
  apply (auto split: prod.splits if_splits option.splits sum.splits)
  apply (metis rtranclp_trans steps_future_done steps_future_exception steps_future_result
      steps_cancel_branch steps_index)+
  done

lemma steps_cancel_loop:
  "cancel_loop fs cb acc w = Some (r, w') \<Longrightarrow> valid fs w \<Longrightarrow> step\<^sup>*\<^sup>* w w'"
proof (induction fs arbitrary: acc w)
  case Nil
  then show ?case by simp
next
  case (Cons f fs)
  from Cons.prems(2) have f: "f < length (state w)" and v: "valid fs w"
    by (simp_all add: valid_def)
  from Cons.prems(1) obtain x w1 where one: "cancel_one f cb w = Some (x, w1)"
    by (auto split: option.splits)
  have s1: "step\<^sup>*\<^sup>* w w1" using one f by (rule steps_cancel_one)
  have v1: "valid fs w1" using v steps_valid [OF s1] by simp
  show ?case
  proof (cases x)
    case (Inl e)
    with Cons.prems(1) one s1 show ?thesis by simp
  next
    case (Inr keep)
    with Cons.prems(1) one have
      "cancel_loop fs cb (if keep then acc @ [f] else acc) w1 = Some (r, w')" by simp
    from Cons.IH [OF this v1] s1 show ?thesis by (meson rtranclp_trans)
  qed
qed

lemma steps_cancel_threads:
  "cancel_threads fs cb w = Some (r, w') \<Longrightarrow> valid fs w \<Longrightarrow> step\<^sup>*\<^sup>* w w'"
  unfolding cancel_threads_def by (rule steps_cancel_loop)

lemma pool_event_started:
  "state w ! f = RUNNING \<or> state w ! f = FINISHED \<Longrightarrow>
   state (pool_event e w) ! f = RUNNING \<or> state (pool_event e w) ! f = FINISHED"
  by (cases e) (auto simp: invoke_callbacks_def completed_callback_def nth_list_update)

lemma fold_pool_event_started:
  "state w ! f = RUNNING \<or> state w ! f = FINISHED \<Longrightarrow>
   state (fold pool_event b w) ! f = RUNNING \<or> state (fold pool_event b w) ! f = FINISHED"
proof (induction b arbitrary: w)
  case Nil
  then show ?case by simp
next
  case (Cons e b)
  from Cons.prems have "state (pool_event e w) ! f = RUNNING \<or> state (pool_event e w) ! f = FINISHED"
    by (rule pool_event_started)
  from Cons.IH [OF this] show ?case by simp
qed

lemma pool_step_started:
  "state w ! f = RUNNING \<or> state w ! f = FINISHED \<Longrightarrow>
   state (pool_step w) ! f = RUNNING \<or> state (pool_step w) ! f = FINISHED"
  by (cases "sched w") (simp_all add: pool_step_def fold_pool_event_started)

lemma wait_done_started:
  "wait_done f w = Some w' \<Longrightarrow> state w ! f = RUNNING \<or> state w ! f = FINISHED \<Longrightarrow>
   state w' ! f = FINISHED"
proof (induction f w rule: wait_done.induct)
  case (1 f w)
  show ?case
  proof (cases "is_done (state w ! f)")
    case True
    with "1.prems" show ?thesis by (auto simp: wait_done.simps [of f w] is_done_def)
  next
    case False
    then have ne: "sched w \<noteq> []" and rec: "wait_done f (pool_step w) = Some w'"
      using "1.prems"(1) by (auto simp: wait_done.simps [of f w] split: if_splits)
    from "1.IH" [OF False ne rec pool_step_started [OF "1.prems"(2)]] show ?thesis .
  qed
qed

section \<open>The phases of \<open>run_in_threads\<close>\<close>

text \<open>The futures and the world at the entry of the \<open>try\<close> block, or the error of the pool's constructor.\<close>

definition launch ::
  "(exn + 'r) list \<Rightarrow> int \<Rightarrow> bool \<Rightarrow> event list list \<Rightarrow> exn + (nat list \<times> 'r world)" where
  "launch methods max_workers cb schedule =
     (case ThreadPoolExecutor (if max_workers \<le> 0 then int (length methods) else max_workers)
             schedule of
        Inl e \<Rightarrow> Inl e
      | Inr pool \<Rightarrow>
          Inr (let (futures, w1) = submit_all methods pool
               in (futures, if cb then add_callbacks futures w1 else w1)))"

lemma run_in_threads_launch:
  "launch methods max_workers cb schedule = Inr (futures, w) \<Longrightarrow>
   run_in_threads methods max_workers cb sigint schedule =
     pool_exit (case try_except sigint cb futures [] w of
                  None \<Rightarrow> None
                | Some ((exc, fs, rs), w1) \<Rightarrow> finally_clause cb exc fs rs w1)"
  by (auto simp: launch_def run_in_threads_def with_pool_def Let_def
      split: sum.splits prod.splits)

lemma try_except_no_interrupt:
  "poll sigint futures results w = Some ((exc, fs, rs), w1) \<Longrightarrow> exc \<noteq> Some KeyboardInterrupt \<Longrightarrow>
   try_except sigint cb futures results w = Some ((exc, fs, rs), w1)"
  by (simp add: try_except_def)

subsection \<open>Joining the workers\<close>

lemma join_workers_done: "join_workers w = Some w' \<Longrightarrow> list_all is_done (state w')"
proof (induction w rule: join_workers.induct)
  case (1 w)
  show ?case
  proof (cases "list_all is_done (state w)")
    case True
    with "1.prems" show ?thesis by (simp add: join_workers.simps [of w])
  next
    case False
    then have ne: "sched w \<noteq> []" and rec: "join_workers (pool_step w) = Some w'"
      using "1.prems" by (auto simp: join_workers.simps [of w] split: if_splits)
    from "1.IH" [OF False ne rec] show ?thesis .
  qed
qed

lemma join_workers_funpow: "join_workers w = Some w' \<Longrightarrow> \<exists>k. w' = (pool_step ^^ k) w"
proof (induction w rule: join_workers.induct)
  case (1 w)
  show ?case
  proof (cases "list_all is_done (state w)")
    case True
    with "1.prems" have "w' = (pool_step ^^ 0) w" by (simp add: join_workers.simps [of w])
    then show ?thesis ..
  next
    case False
    then have ne: "sched w \<noteq> []" and rec: "join_workers (pool_step w) = Some w'"
      using "1.prems" by (auto simp: join_workers.simps [of w] split: if_splits)
    from "1.IH" [OF False ne rec] obtain k where "w' = (pool_step ^^ k) (pool_step w)" ..
    then have "w' = (pool_step ^^ Suc k) w" by (simp add: funpow_swap1)
    then show ?thesis ..
  qed
qed

lemma all_done_pool_step:
  "list_all is_done (state w) \<Longrightarrow> list_all is_done (state (pool_step w))"
  by (simp add: list_all_length pool_step_done_stable)


lemma shutdown_done: "shutdown w = Some w' \<Longrightarrow> list_all is_done (state w')"
  unfolding shutdown_def by (rule join_workers_done)

lemma shutdown_funpow: "shutdown w = Some w' \<Longrightarrow> \<exists>k. w' = (pool_step ^^ k) w"
proof -
  assume "shutdown w = Some w'"
  then obtain k where "w' = (pool_step ^^ k) (pool_step w)"
    unfolding shutdown_def by (auto dest: join_workers_funpow)
  then have "w' = (pool_step ^^ Suc k) w" by (simp add: funpow_swap1)
  then show ?thesis ..
qed

lemma shutdown_all_done: "list_all is_done (state w) \<Longrightarrow> shutdown w = Some (pool_step w)"
  by (simp add: shutdown_def join_workers.simps [of "pool_step w"] all_done_pool_step)

lemma pool_exit_done: "pool_exit r = Some (x, w') \<Longrightarrow> list_all is_done (state w')"
  by (auto simp: pool_exit_def split: option.splits dest: shutdown_done)


lemma cancel_loop_kept:
  "cancel_loop fs cb acc w = Some (Inr kept, w') \<Longrightarrow> set kept \<subseteq> set acc \<union> set fs"
proof (induction fs arbitrary: acc w)
  case Nil
  then show ?case by simp
next
  case (Cons f fs)
  from Cons.prems obtain keep w1 where
    "cancel_loop fs cb (if keep then acc @ [f] else acc) w1 = Some (Inr kept, w')"
    by (auto split: option.splits sum.splits)
  from Cons.IH [OF this] show ?case by (auto split: if_splits)
qed

lemma cancel_threads_kept:
  "cancel_threads fs cb w = Some (Inr kept, w') \<Longrightarrow> set kept \<subseteq> set fs"
  unfolding cancel_threads_def by (drule cancel_loop_kept) simp

text \<open>The values of futures that finished successfully, in the order of the list.\<close>

definition results_of :: "'r world \<Rightarrow> nat list \<Rightarrow> 'r list" where
  "results_of w fs = map (\<lambda>f. projr (task w ! f)) fs"

lemma collect_settled:
  "settled fs w \<Longrightarrow>
   \<exists>k. collect fs rs w =
     Some (case first_raise w fs of Some e \<Rightarrow> Inl e | None \<Rightarrow> Inr (rs @ results_of w fs),
           (pool_step ^^ k) w)"
proof (induction fs arbitrary: rs w)
  case Nil
  have "collect [] rs w =
      Some (case first_raise w [] of Some e \<Rightarrow> Inl e | None \<Rightarrow> Inr (rs @ results_of w []),
            (pool_step ^^ 0) w)"
    by (simp add: results_of_def)
  then show ?case ..
next
  case (Cons f fs)
  have d: "is_done (state w ! f)" and rest: "settled fs w"
    using Cons.prems by (simp_all add: settled_def)
  have one: "future_result f w = Some (outcome w f, (pool_step ^^ 1) w)"
    using d by (simp add: future_result_done outcome_def)
  show ?case
  proof (cases "outcome w f")
    case (Inl e)
    with one have "collect (f # fs) rs w =
        Some (case first_raise w (f # fs) of Some e \<Rightarrow> Inl e
              | None \<Rightarrow> Inr (rs @ results_of w (f # fs)), (pool_step ^^ 1) w)"
      by simp
    then show ?thesis ..
  next
    case (Inr v)
    let ?w = "(pool_step ^^ 1) w"
    have v: "projr (task w ! f) = v" using Inr by (simp add: outcome_def split: if_splits)
    have "settled fs ?w" using rest by (rule settled_steps)
    from Cons.IH [OF this, of "rs @ [v]"] obtain j where
      "collect fs (rs @ [v]) ?w =
         Some (case first_raise ?w fs of Some e \<Rightarrow> Inl e
               | None \<Rightarrow> Inr ((rs @ [v]) @ results_of ?w fs), (pool_step ^^ j) ?w)"
      by blast
    moreover have "first_raise ?w fs = first_raise w fs" using rest by (rule first_raise_steps)
    moreover have "results_of ?w fs = results_of w fs" by (simp add: results_of_def)
    moreover have "(pool_step ^^ j) ?w = (pool_step ^^ (j + 1)) w" by (simp only: funpow_add o_apply)
    ultimately have "collect (f # fs) rs w =
        Some (case first_raise w (f # fs) of Some e \<Rightarrow> Inl e
              | None \<Rightarrow> Inr (rs @ results_of w (f # fs)), (pool_step ^^ (j + 1)) w)"
      using Inr one v by (simp add: results_of_def split: option.splits)
    then show ?thesis ..
  qed
qed

text \<open>The \<open>finally\<close> clause and the final loop when every future of the list is terminal.\<close>

lemma finally_clause_settled:
  assumes "settled fs w"
  shows "\<exists>k. finally_clause cb None fs rs w =
     Some (case sweep_raise w fs of
             Some e \<Rightarrow> Inl e
           | None \<Rightarrow> (case first_raise w fs of
                        Some e \<Rightarrow> Inl e
                      | None \<Rightarrow> Inr (rs @ results_of w fs)),
           (pool_step ^^ k) w)"
proof -
  obtain k where sweep: "cancel_threads fs cb w =
      Some (case sweep_raise w fs of Some e \<Rightarrow> Inl e | None \<Rightarrow> Inr fs, (pool_step ^^ k) w)"
    using cancel_loop_settled [OF assms, of cb "[]"]
    by (auto simp: cancel_threads_def cong: option.case_cong)
  show ?thesis
  proof (cases "sweep_raise w fs")
    case (Some e)
    with sweep have "finally_clause cb None fs rs w =
        Some (case sweep_raise w fs of
                Some e \<Rightarrow> Inl e
              | None \<Rightarrow> (case first_raise w fs of
                           Some e \<Rightarrow> Inl e
                         | None \<Rightarrow> Inr (rs @ results_of w fs)),
              (pool_step ^^ k) w)"
      by (simp add: finally_clause_def)
    then show ?thesis ..
  next
    case None
    let ?w = "(pool_step ^^ k) w"
    have "settled fs ?w" using assms by (rule settled_steps)
    from collect_settled [OF this, of rs] obtain j where
      "collect fs rs ?w =
         Some (case first_raise ?w fs of Some e \<Rightarrow> Inl e | None \<Rightarrow> Inr (rs @ results_of ?w fs),
               (pool_step ^^ j) ?w)"
      by blast
    moreover have "first_raise ?w fs = first_raise w fs"
      using first_raise_steps [OF assms, of k] by simp
    moreover have "results_of ?w fs = results_of w fs" by (simp add: results_of_def)
    moreover have "(pool_step ^^ j) ?w = (pool_step ^^ (j + k)) w" by (simp only: funpow_add o_apply)
    ultimately have "finally_clause cb None fs rs w =
        Some (case sweep_raise w fs of
                Some e \<Rightarrow> Inl e
              | None \<Rightarrow> (case first_raise w fs of
                           Some e \<Rightarrow> Inl e
                         | None \<Rightarrow> Inr (rs @ results_of w fs)),
              (pool_step ^^ (j + k)) w)"
      using None sweep by (simp add: finally_clause_def split: option.splits)
    then show ?thesis ..
  qed
qed

text \<open>A world that differs from another one by activity of the pool only.\<close>

definition pool_steps :: "'r world \<Rightarrow> 'r world \<Rightarrow> bool" where
  "pool_steps w w' = (\<exists>k. w' = (pool_step ^^ k) w)"

lemma pool_steps_refl [simp]: "pool_steps w w"
  unfolding pool_steps_def by (rule exI [of _ 0]) simp

lemma pool_steps_step [simp]: "pool_steps w (pool_step w)"
  unfolding pool_steps_def by (rule exI [of _ 1]) simp

lemma pool_steps_trans: "pool_steps w w1 \<Longrightarrow> pool_steps w1 w2 \<Longrightarrow> pool_steps w w2"
proof -
  assume "pool_steps w w1" "pool_steps w1 w2"
  then obtain j k where "w1 = (pool_step ^^ j) w" "w2 = (pool_step ^^ k) w1"
    unfolding pool_steps_def by blast
  then have "w2 = (pool_step ^^ (k + j)) w" by (simp only: funpow_add o_apply)
  then show ?thesis unfolding pool_steps_def ..
qed

lemma pool_steps_after_step: "pool_steps (pool_step w) w' \<Longrightarrow> pool_steps w w'"
  using pool_steps_step pool_steps_trans by blast

lemma pool_steps_steps: "pool_steps w w' \<Longrightarrow> step\<^sup>*\<^sup>* w w'"
  unfolding pool_steps_def by (auto simp: steps_funpow)

lemma pool_steps_future_done: "future_done f w = (d, w') \<Longrightarrow> pool_steps w w'"
  by (auto simp: future_done_def Let_def)

lemma pool_steps_wait_done: "wait_done f w = Some w' \<Longrightarrow> pool_steps w w'"
proof (induction f w rule: wait_done.induct)
  case (1 f w)
  show ?case
  proof (cases "is_done (state w ! f)")
    case True
    with "1.prems" show ?thesis by (simp add: wait_done.simps [of f w])
  next
    case False
    then have ne: "sched w \<noteq> []" and rec: "wait_done f (pool_step w) = Some w'"
      using "1.prems" by (auto simp: wait_done.simps [of f w] split: if_splits)
    from "1.IH" [OF False ne rec] show ?thesis by (rule pool_steps_after_step)
  qed
qed

lemma pool_steps_future_result: "future_result f w = Some (r, w') \<Longrightarrow> pool_steps w w'"
  by (auto simp: future_result_def split: option.splits
      intro: pool_steps_after_step pool_steps_wait_done)

lemma pool_steps_any_not_done:
  "any_not_done sigint fs w = (r, sg, w') \<Longrightarrow> pool_steps w w'"
proof (induction fs arbitrary: sigint w)
  case Nil
  then show ?case by simp
next
  case (Cons f fs)
  show ?case
  proof (cases "sigint = Some 0")
    case True
    with Cons.prems show ?thesis by simp
  next
    case False
    obtain d w1 where d: "future_done f w = (d, w1)" by (cases "future_done f w")
    have "pool_steps w w1" using d by (rule pool_steps_future_done)
    moreover have "pool_steps w1 w'"
      using Cons.prems False d Cons.IH [of "later sigint" w1] by (auto split: if_splits)
    ultimately show ?thesis by (rule pool_steps_trans)
  qed
qed

lemma pool_steps_first_done:
  "first_done sigint fs w = (r, sg, w') \<Longrightarrow> pool_steps w w'"
proof (induction fs arbitrary: sigint w)
  case Nil
  then show ?case by simp
next
  case (Cons f fs)
  show ?case
  proof (cases "sigint = Some 0")
    case True
    with Cons.prems show ?thesis by simp
  next
    case False
    obtain d w1 where d: "future_done f w = (d, w1)" by (cases "future_done f w")
    have "pool_steps w w1" using d by (rule pool_steps_future_done)
    moreover have "pool_steps w1 w'"
      using Cons.prems False d Cons.IH [of "later sigint" w1] by (auto split: if_splits)
    ultimately show ?thesis by (rule pool_steps_trans)
  qed
qed

text \<open>The only exception a scan raises is the interrupt.\<close>

lemma any_not_done_raise:
  "any_not_done sigint fs w = (Inl e, sg, w') \<Longrightarrow> e = KeyboardInterrupt \<and> sigint \<noteq> None"
proof (induction fs arbitrary: sigint w)
  case Nil
  then show ?case by simp
next
  case (Cons f fs)
  obtain d w1 where d: "future_done f w = (d, w1)" by (cases "future_done f w")
  with Cons.prems Cons.IH [of "later sigint" w1] show ?case by (auto split: if_splits)
qed

lemma first_done_raise:
  "first_done sigint fs w = (Inl e, sg, w') \<Longrightarrow> e = KeyboardInterrupt \<and> sigint \<noteq> None"
proof (induction fs arbitrary: sigint w)
  case Nil
  then show ?case by simp
next
  case (Cons f fs)
  obtain d w1 where d: "future_done f w = (d, w1)" by (cases "future_done f w")
  with Cons.prems Cons.IH [of "later sigint" w1] show ?case by (auto split: if_splits)
qed

text \<open>
  The two recursive calls of \<open>poll\<close>, with the conditions under which they are made:
  after a sleep, and after a result was appended.
\<close>

lemma poll_pass_induct [case_names pass]:
  assumes "\<And>sigint futures results w.
     (\<And>sg1 w1 sg2 w2.
         any_not_done sigint futures w = (Inr True, sg1, w1) \<Longrightarrow>
         first_done sg1 futures w1 = (Inr None, sg2, w2) \<Longrightarrow>
         sg2 \<noteq> Some 0 \<Longrightarrow> \<not> (sched w = [] \<and> sigint = None) \<Longrightarrow>
         P (later sg2) futures results (sleep w2)) \<Longrightarrow>
     (\<And>sg1 w1 future sg2 w2 v w3.
         any_not_done sigint futures w = (Inr True, sg1, w1) \<Longrightarrow>
         first_done sg1 futures w1 = (Inr (Some future), sg2, w2) \<Longrightarrow>
         sg2 \<noteq> Some 0 \<Longrightarrow> later sg2 \<noteq> Some 0 \<Longrightarrow>
         future_result future w2 = Some (Inr v, w3) \<Longrightarrow> later (later sg2) \<noteq> Some 0 \<Longrightarrow>
         P (later (later (later sg2))) (remove1 future futures) (results @ [v]) w3) \<Longrightarrow>
     P sigint futures results w"
  shows "P sigint futures results w"
proof (induction sigint futures results w rule: poll.induct)
  case outer: (1 sigint futures results w)
  show ?case
  proof (rule assms, goal_cases)
    case (1 sg1 w1 sg2 w2)
    show ?case
      by (rule outer.IH(1) [OF 1(1) [symmetric] refl refl refl 1(2) [symmetric] refl refl refl
            1(3) 1(4)])
  next
    case (2 sg1 w1 future sg2 w2 v w3)
    show ?case
      by (rule outer.IH(2) [OF 2(1) [symmetric] refl refl refl 2(2) [symmetric] refl refl refl
            2(3) 2(4) 2(5) refl refl 2(6)])
  qed
qed

text \<open>The ways a pass of the polling loop ends, or goes on to the next pass.\<close>

lemma poll_cases [consumes 1, case_names interrupt idle raise sleep append]:
  assumes "poll sigint futures results w = Some ((exc, fs, rs), w')"
    and "\<lbrakk>exc = Some KeyboardInterrupt; sigint \<noteq> None; set fs \<subseteq> set futures; pool_steps w w'\<rbrakk>
         \<Longrightarrow> thesis"
    and "\<And>sg1. \<lbrakk>any_not_done sigint futures w = (Inr False, sg1, w'); exc = None;
           fs = futures; rs = results\<rbrakk> \<Longrightarrow> thesis"
    and "\<And>sg1 w1 sg2 w2 future e.
         \<lbrakk>any_not_done sigint futures w = (Inr True, sg1, w1);
          first_done sg1 futures w1 = (Inr (Some future), sg2, w2);
          future_result future w2 = Some (Inl e, w'); exc = Some e;
          fs = remove1 future futures; rs = results\<rbrakk> \<Longrightarrow> thesis"
    and "\<And>sg1 w1 sg2 w2.
         \<lbrakk>any_not_done sigint futures w = (Inr True, sg1, w1);
          first_done sg1 futures w1 = (Inr None, sg2, w2);
          sg2 \<noteq> Some 0; \<not> (sched w = [] \<and> sigint = None);
          poll (later sg2) futures results (sleep w2) = Some ((exc, fs, rs), w')\<rbrakk> \<Longrightarrow> thesis"
    and "\<And>sg1 w1 future sg2 w2 v w3.
         \<lbrakk>any_not_done sigint futures w = (Inr True, sg1, w1);
          first_done sg1 futures w1 = (Inr (Some future), sg2, w2);
          sg2 \<noteq> Some 0; later sg2 \<noteq> Some 0;
          future_result future w2 = Some (Inr v, w3); later (later sg2) \<noteq> Some 0;
          poll (later (later (later sg2))) (remove1 future futures) (results @ [v]) w3
            = Some ((exc, fs, rs), w')\<rbrakk> \<Longrightarrow> thesis"
  shows thesis
proof -
  note run = assms(1) [unfolded poll.simps [of sigint futures results w]]
  obtain r sg1 w1 where a: "any_not_done sigint futures w = (r, sg1, w1)"
    by (cases "any_not_done sigint futures w")
  have s1: "pool_steps w w1" using a by (rule pool_steps_any_not_done)
  have n1: "(sg1 = None) = (sigint = None)" using any_not_done_le [OF a] by simp
  show thesis
  proof (cases r)
    case (Inl e)
    have "e = KeyboardInterrupt" "sigint \<noteq> None"
      using a Inl any_not_done_raise [of sigint futures w e sg1 w1] by simp_all
    moreover have "exc = Some e" "fs = futures" "w' = w1" using a Inl run by simp_all
    ultimately show thesis using s1 by (intro assms(2)) simp_all
  next
    case (Inr busy)
    show thesis
    proof (cases busy)
      case False
      have "exc = None" "fs = futures" "rs = results" "w' = w1" using a Inr False run by simp_all
      then show thesis using a Inr False by (intro assms(3) [of sg1]) simp_all
    next
      case True
      have a': "any_not_done sigint futures w = (Inr True, sg1, w1)" using a Inr True by simp
      obtain found sg2 w2 where f: "first_done sg1 futures w1 = (found, sg2, w2)"
        by (cases "first_done sg1 futures w1")
      have s2: "pool_steps w w2"
        using s1 pool_steps_first_done [OF f] by (rule pool_steps_trans)
      have n2: "(sg2 = None) = (sigint = None)" using first_done_le [OF f] n1 by simp
      show thesis
      proof (cases found)
        case (Inl e)
        have "e = KeyboardInterrupt" "sigint \<noteq> None"
          using f Inl n1 first_done_raise [of sg1 futures w1 e sg2 w2] by simp_all
        moreover have "exc = Some e" "fs = futures" "w' = w2" using a' f Inl run by simp_all
        ultimately show thesis using s2 by (intro assms(2)) simp_all
      next
        case found: (Inr x)
        show thesis
        proof (cases x)
          case None
          have f': "first_done sg1 futures w1 = (Inr None, sg2, w2)" using f found None by simp
          show thesis
          proof (cases "sg2 = Some 0")
            case z: True
            have "exc = Some KeyboardInterrupt" "fs = futures" "w' = w2"
              using a' f' z run by simp_all
            moreover have "sigint \<noteq> None" using z n2 by (auto simp: later_def)
            ultimately show thesis using s2 by (intro assms(2)) simp_all
          next
            case nz: False
            have "\<not> (sched w = [] \<and> sigint = None)"
              "poll (later sg2) futures results (sleep w2) = Some ((exc, fs, rs), w')"
              using a' f' nz run by (auto split: if_splits)
            then show thesis using a' f' nz by (intro assms(5) [of sg1 w1 sg2 w2])
          qed
        next
          case (Some future)
          have f': "first_done sg1 futures w1 = (Inr (Some future), sg2, w2)"
            using f found Some by simp
          have sub: "set (remove1 future futures) \<subseteq> set futures"
            by (rule set_remove1_subset)
          show thesis
          proof (cases "sg2 = Some 0")
            case z: True
            have "exc = Some KeyboardInterrupt" "fs = futures" "w' = w2"
              using a' f' z run by simp_all
            moreover have "sigint \<noteq> None" using z n2 by (auto simp: later_def)
            ultimately show thesis using s2 by (intro assms(2)) simp_all
          next
            case nz: False
            show thesis
            proof (cases "later sg2 = Some 0")
              case z: True
              have "exc = Some KeyboardInterrupt" "fs = remove1 future futures" "w' = w2"
                using a' f' nz z run by simp_all
              moreover have "sigint \<noteq> None" using z n2 by (auto simp: later_def)
              ultimately show thesis using s2 sub by (intro assms(2)) simp_all
            next
              case nz1: False
              show thesis
              proof (cases "future_result future w2")
                case None
                with a' f' nz nz1 run show thesis by simp
              next
                case res: (Some rw)
                obtain y w3 where rw: "rw = (y, w3)" by (cases rw)
                have s3: "pool_steps w w3"
                  using s2 pool_steps_future_result [of future w2 y w3] res rw
                  by (auto intro: pool_steps_trans)
                show thesis
                proof (cases y)
                  case (Inl e)
                  have res': "future_result future w2 = Some (Inl e, w3)"
                    using res rw Inl by simp
                  have "exc = Some e" "fs = remove1 future futures" "rs = results" "w' = w3"
                    using a' f' nz nz1 res' run by simp_all
                  then show thesis
                    using a' f' res' by (intro assms(4) [of sg1 w1 future sg2 w2 e]) simp_all
                next
                  case val: (Inr v)
                  have res': "future_result future w2 = Some (Inr v, w3)"
                    using res rw val by simp
                  show thesis
                  proof (cases "later (later sg2) = Some 0")
                    case z: True
                    have "exc = Some KeyboardInterrupt" "fs = remove1 future futures" "w' = w3"
                      using a' f' nz nz1 res' z run by simp_all
                    moreover have "sigint \<noteq> None" using z n2 by (auto simp: later_def)
                    ultimately show thesis using s3 sub by (intro assms(2)) simp_all
                  next
                    case nz2: False
                    have "poll (later (later (later sg2))) (remove1 future futures)
                            (results @ [v]) w3 = Some ((exc, fs, rs), w')"
                      using a' f' nz nz1 res' nz2 run by simp
                    then show thesis
                      using a' f' nz nz1 res' nz2
                      by (intro assms(6) [of sg1 w1 future sg2 w2 v w3])
                  qed
                qed
              qed
            qed
          qed
        qed
      qed
    qed
  qed
qed

text \<open>The polling loop only drops futures from the list, and leaves the futures themselves alone.\<close>

lemma poll_sound:
  "poll sigint futures results w = Some ((exc, fs, rs), w') \<Longrightarrow>
   set fs \<subseteq> set futures \<and> pool_steps w w'"
proof (induction sigint futures results w rule: poll_pass_induct)
  case (pass sigint futures results w)
  from pass.prems show ?case
  proof (cases rule: poll_cases)
    case interrupt
    then show ?thesis by simp
  next
    case (idle sg1)
    then show ?thesis using pool_steps_any_not_done by auto
  next
    case (raise sg1 w1 sg2 w2 future e)
    have "pool_steps w w1" using raise(1) by (rule pool_steps_any_not_done)
    moreover have "pool_steps w1 w2" using raise(2) by (rule pool_steps_first_done)
    moreover have "pool_steps w2 w'" using raise(3) by (rule pool_steps_future_result)
    ultimately have "pool_steps w w'" by (meson pool_steps_trans)
    with raise show ?thesis using set_remove1_subset [of future futures] by simp
  next
    case (sleep sg1 w1 sg2 w2)
    have "pool_steps w w1" using sleep(1) by (rule pool_steps_any_not_done)
    moreover have "pool_steps w1 w2" using sleep(2) by (rule pool_steps_first_done)
    moreover have "pool_steps w2 (sleep w2)" by (simp add: sleep_def)
    moreover have "set fs \<subseteq> set futures \<and> pool_steps (sleep w2) w'"
      using sleep by (rule pass.IH(1))
    ultimately show ?thesis by (meson pool_steps_trans)
  next
    case (append sg1 w1 future sg2 w2 v w3)
    have "pool_steps w w1" using append(1) by (rule pool_steps_any_not_done)
    moreover have "pool_steps w1 w2" using append(2) by (rule pool_steps_first_done)
    moreover have "pool_steps w2 w3" using append(5) by (rule pool_steps_future_result)
    moreover have "set fs \<subseteq> set (remove1 future futures) \<and> pool_steps w3 w'"
      using append by (rule pass.IH(2))
    ultimately show ?thesis
      using set_remove1_subset [of future futures] by (meson pool_steps_trans subset_trans)
  qed
qed

subsection \<open>The submitted futures\<close>

lemma submit_all_futures:
  "submit_all methods w = (fs, w') \<Longrightarrow>
   fs = [length (state w)..<length (state w) + length methods]
   \<and> length (state w') = length (state w) + length methods"
proof (induction methods arbitrary: w fs w')
  case Nil
  then show ?case by simp
next
  case (Cons m ms)
  obtain f w1 where s: "submit m w = (f, w1)" by (cases "submit m w")
  obtain gs w2 where r: "submit_all ms w1 = (gs, w2)" by (cases "submit_all ms w1")
  have f: "f = length (state w)" and l: "length (state w1) = Suc (length (state w))"
    using s by (auto simp: submit_def Let_def)
  from Cons.IH [OF r] l have
    "gs = [Suc (length (state w))..<Suc (length (state w)) + length ms]"
    "length (state w2) = Suc (length (state w)) + length ms" by simp_all
  moreover have "[length (state w)..<length (state w) + length (m # ms)] =
      length (state w) # [Suc (length (state w))..<Suc (length (state w)) + length ms]"
    by (simp del: upt_Suc add: upt_rec [of "length (state w)"])
  ultimately show ?case using Cons.prems s r f by simp
qed

lemma length_state_add_done_callback [simp]:
  "length (state (add_done_callback f w)) = length (state w)"
  by (simp add: add_done_callback_def Let_def completed_callback_def)

lemma length_state_add_callbacks [simp]:
  "length (state (add_callbacks fs w)) = length (state w)"
  by (induction fs arbitrary: w) simp_all

lemma launch_futures:
  assumes "launch methods max_workers cb schedule = Inr (futures, w)"
  shows "futures = [0..<length methods] \<and> length (state w) = length methods"
proof -
  let ?n = "if max_workers \<le> 0 then int (length methods) else max_workers"
  obtain fs w1 where s: "submit_all methods (new_pool (nat ?n) schedule) = (fs, w1)"
    by (cases "submit_all methods (new_pool (nat ?n) schedule :: 'a world)")
  from submit_all_futures [OF s] have "fs = [0..<length methods]"
    "length (state w1) = length methods" by (simp_all add: new_pool_def)
  moreover have "futures = fs" "w = (if cb then add_callbacks fs w1 else w1)"
    using assms s
    by (auto simp: launch_def ThreadPoolExecutor_def Let_def split: if_splits)
  ultimately show ?thesis by simp
qed

lemma launch_valid:
  "launch methods max_workers cb schedule = Inr (futures, w) \<Longrightarrow> valid futures w"
  by (drule launch_futures) (simp add: valid_def list_all_iff)

lemma valid_subset: "valid fs w \<Longrightarrow> set gs \<subseteq> set fs \<Longrightarrow> valid gs w"
  by (auto simp: valid_def list_all_iff)

section \<open>The callback\<close>

text \<open>
  The log of the callback agrees with the futures: the callback has been called with a
  future exactly once if that future is terminal and carries the done-callback, and
  not at all otherwise; it has never been called with \<open>True\<close>.
\<close>

definition callbacks_ok :: "'r world \<Rightarrow> bool" where
  "callbacks_ok w =
     (length (registered w) = length (state w)
      \<and> count_list (calls w) (Flag True) = 0
      \<and> (\<forall>f. count_list (calls w) (Handle f) =
             (if f < length (state w) \<and> registered w ! f \<and> is_done (state w ! f)
              then 1 else 0)))"

lemma callbacks_ok_pool_event: "callbacks_ok w \<Longrightarrow> callbacks_ok (pool_event e w)"
proof (cases e)
  case (Start g)
  assume "callbacks_ok w"
  then show ?thesis
    unfolding Start callbacks_ok_def
    by (auto simp: nth_list_update is_done_def)
next
  case (Finish g)
  assume "callbacks_ok w"
  then show ?thesis
    unfolding Finish callbacks_ok_def
    by (auto simp: nth_list_update is_done_def invoke_callbacks_def completed_callback_def)
qed

lemma callbacks_ok_fold: "callbacks_ok w \<Longrightarrow> callbacks_ok (fold pool_event b w)"
  by (induction b arbitrary: w) (simp_all add: callbacks_ok_pool_event)

lemma callbacks_ok_sched: "callbacks_ok w \<Longrightarrow> callbacks_ok (w\<lparr>sched := s\<rparr>)"
  by (simp add: callbacks_ok_def)

lemma callbacks_ok_pool_step: "callbacks_ok w \<Longrightarrow> callbacks_ok (pool_step w)"
  by (simp add: pool_step_def callbacks_ok_fold callbacks_ok_sched split: list.splits)

lemma callbacks_ok_step: "step w w' \<Longrightarrow> callbacks_ok w \<Longrightarrow> callbacks_ok w'"
proof (induction rule: step.induct)
  case (pool w)
  then show ?case by (rule callbacks_ok_pool_step)
next
  case (cancel f w)
  then show ?case
    unfolding callbacks_ok_def
    by (auto simp: nth_list_update is_done_def invoke_callbacks_def completed_callback_def)
next
  case (flag w)
  then show ?case by (simp add: callbacks_ok_def completed_callback_def)
qed

lemma callbacks_ok_steps: "step\<^sup>*\<^sup>* w w' \<Longrightarrow> callbacks_ok w \<Longrightarrow> callbacks_ok w'"
  by (induction rule: rtranclp_induct) (auto intro: callbacks_ok_step)

lemma callbacks_ok_new_pool: "callbacks_ok (new_pool n s)"
  by (simp add: callbacks_ok_def new_pool_def)

lemma callbacks_ok_submit:
  "callbacks_ok w \<Longrightarrow> submit m w = (f, w') \<Longrightarrow> callbacks_ok w'"
proof -
  assume ok: "callbacks_ok w" and s: "submit m w = (f, w')"
  have "callbacks_ok (pool_step w)" using ok by (rule callbacks_ok_pool_step)
  then show ?thesis
    using s unfolding callbacks_ok_def submit_def Let_def
    by (auto simp: nth_append is_done_def less_Suc_eq split: if_splits)
qed

lemma callbacks_ok_add_done_callback:
  assumes "callbacks_ok w" "f < length (state w)" "\<not> registered w ! f"
  shows "callbacks_ok (add_done_callback f w)"
proof -
  have "callbacks_ok (pool_step w)" using assms(1) by (rule callbacks_ok_pool_step)
  then show ?thesis
    using assms(2,3) unfolding callbacks_ok_def add_done_callback_def Let_def
    by (auto simp: nth_list_update completed_callback_def)
qed

lemma submit_all_ok:
  "callbacks_ok w \<Longrightarrow> submit_all ms w = (fs, w') \<Longrightarrow>
   callbacks_ok w' \<and> registered w' = registered w @ replicate (length ms) False"
proof (induction ms arbitrary: w fs w')
  case Nil
  then show ?case by simp
next
  case (Cons m ms)
  obtain f w1 where s: "submit m w = (f, w1)" by (cases "submit m w")
  obtain gs w2 where r: "submit_all ms w1 = (gs, w2)" by (cases "submit_all ms w1")
  have ok1: "callbacks_ok w1" using Cons.prems(1) s by (rule callbacks_ok_submit)
  have r1: "registered w1 = registered w @ [False]"
    using s by (auto simp: submit_def Let_def)
  from Cons.IH [OF ok1 r] r1 have "callbacks_ok w2"
    "registered w2 = registered w @ replicate (length (m # ms)) False"
    by (simp_all add: replicate_app_Cons_same)
  with Cons.prems(2) s r show ?case by simp
qed

lemma registered_add_callbacks:
  "registered (add_callbacks fs w) = fold (\<lambda>f r. r[f := True]) fs (registered w)"
  by (induction fs arbitrary: w) (simp_all add: add_done_callback_def Let_def completed_callback_def)

lemma mark_nth: "g < length r \<Longrightarrow> r[a := True] ! g = (a = g \<or> r ! g)"
  by (cases "a = g") simp_all

lemma mark_nth_other: "a \<noteq> g \<Longrightarrow> r[a := True] ! g = r ! g"
  by simp

lemma fold_mark_nth:
  "g < length r \<Longrightarrow> fold (\<lambda>f r. r[f := True]) fs r ! g = (g \<in> set fs \<or> r ! g)"
  by (induction fs arbitrary: r) (auto simp: mark_nth)

lemma fold_mark_length [simp]: "length (fold (\<lambda>f r. r[f := True]) fs r) = length r"
  by (induction fs arbitrary: r) simp_all

lemma callbacks_ok_add_callbacks:
  "callbacks_ok w \<Longrightarrow> valid fs w \<Longrightarrow> distinct fs \<Longrightarrow> list_all (\<lambda>f. \<not> registered w ! f) fs \<Longrightarrow>
   callbacks_ok (add_callbacks fs w)"
proof (induction fs arbitrary: w)
  case Nil
  then show ?case by simp
next
  case (Cons f fs)
  let ?w = "add_done_callback f w"
  have f: "f < length (state w)" "\<not> registered w ! f" "f \<notin> set fs"
    using Cons.prems by (simp_all add: valid_def)
  have ok: "callbacks_ok ?w" using Cons.prems(1) f(1,2) by (rule callbacks_ok_add_done_callback)
  have v: "valid fs ?w" using Cons.prems(2) by (simp add: valid_def)
  have d: "distinct fs" using Cons.prems(3) by simp
  have u: "list_all (\<lambda>g. \<not> registered ?w ! g) fs"
    unfolding list_all_iff
  proof
    fix g assume g: "g \<in> set fs"
    with f(3) have "f \<noteq> g" by auto
    then have "registered ?w ! g = registered w ! g"
      by (simp add: add_done_callback_def Let_def completed_callback_def)
    with g Cons.prems(4) show "\<not> registered ?w ! g" by (simp add: list_all_iff)
  qed
  from Cons.IH [OF ok v d u] show ?case by simp
qed

lemma launch_callbacks:
  assumes "launch methods max_workers True schedule = Inr (futures, w)"
  shows "callbacks_ok w \<and> registered w = replicate (length methods) True"
proof -
  let ?n = "if max_workers \<le> 0 then int (length methods) else max_workers"
  let ?p = "new_pool (nat ?n) schedule :: 'a world"
  obtain fs w1 where s: "submit_all methods ?p = (fs, w1)" by (cases "submit_all methods ?p")
  from submit_all_futures [OF s] have fs: "fs = [0..<length methods]"
    and len: "length (state w1) = length methods" by (simp_all add: new_pool_def)
  from submit_all_ok [OF callbacks_ok_new_pool s] have ok1: "callbacks_ok w1"
    and r1: "registered w1 = replicate (length methods) False" by (simp_all add: new_pool_def)
  have w: "w = add_callbacks fs w1"
    using assms s by (auto simp: launch_def ThreadPoolExecutor_def Let_def split: if_splits)
  have "callbacks_ok w"
    unfolding w using ok1
  proof (rule callbacks_ok_add_callbacks)
    show "valid fs w1" using fs len by (simp add: valid_def list_all_iff)
    show "distinct fs" using fs by simp
    show "list_all (\<lambda>f. \<not> registered w1 ! f) fs" using fs r1 by (simp add: list_all_iff)
  qed
  moreover have "registered w = replicate (length methods) True"
  proof (rule nth_equalityI)
    show "length (registered w) = length (replicate (length methods) True)"
      by (simp add: w registered_add_callbacks r1)
    fix g assume "g < length (registered w)"
    then have g: "g < length methods" by (simp add: w registered_add_callbacks r1)
    then show "registered w ! g = replicate (length methods) True ! g"
      by (simp add: w registered_add_callbacks r1 fold_mark_nth fs)
  qed
  ultimately show ?thesis by simp
qed

lemma pool_steps_collect: "collect fs rs w = Some (r, w') \<Longrightarrow> pool_steps w w'"
proof (induction fs arbitrary: rs w)
  case Nil
  then show ?case by simp
next
  case (Cons f fs)
  from Cons.prems obtain x w1 where one: "future_result f w = Some (x, w1)"
    by (auto split: option.splits)
  have s1: "pool_steps w w1" using one by (rule pool_steps_future_result)
  show ?case
  proof (cases x)
    case (Inl e)
    with Cons.prems one s1 show ?thesis by simp
  next
    case (Inr v)
    with Cons.prems one have "collect fs (rs @ [v]) w1 = Some (r, w')" by simp
    from s1 Cons.IH [OF this] show ?thesis by (rule pool_steps_trans)
  qed
qed

lemma steps_shutdown: "shutdown w = Some w' \<Longrightarrow> step\<^sup>*\<^sup>* w w'"
  by (drule shutdown_funpow) (auto simp: steps_funpow)

lemma try_except_steps:
  assumes "try_except sigint cb futures results w = Some ((exc, fs, rs), w')" "valid futures w"
  shows "step\<^sup>*\<^sup>* w w' \<and> set fs \<subseteq> set futures"
proof -
  from assms(1) obtain e gs w1 where p: "poll sigint futures results w = Some ((e, gs, rs), w1)"
    by (auto simp: try_except_def split: option.splits prod.splits sum.splits if_splits)
  have sub: "set gs \<subseteq> set futures" and s1: "step\<^sup>*\<^sup>* w w1"
    using poll_sound [OF p] by (auto dest: pool_steps_steps)
  have v1: "valid gs w1"
    using assms(2) sub steps_valid [OF s1] by (auto intro: valid_subset)
  show ?thesis
  proof (cases "e = Some KeyboardInterrupt")
    case False
    with assms(1) p s1 sub show ?thesis by (simp add: try_except_def)
  next
    case True
    from assms(1) p True obtain x w2 where c: "cancel_threads gs cb w1 = Some (x, w2)"
      by (auto simp: try_except_def split: option.splits)
    have s2: "step\<^sup>*\<^sup>* w1 w2" using c v1 by (rule steps_cancel_threads)
    show ?thesis
    proof (cases x)
      case (Inl e2)
      with assms(1) p True c s1 s2 sub show ?thesis by (auto simp: try_except_def)
    next
      case (Inr kept)
      with assms(1) p True c have sh: "shutdown w2 = Some w'" and k: "fs = kept"
        by (auto simp: try_except_def split: option.splits)
      have "set kept \<subseteq> set gs" using c Inr by (auto dest: cancel_threads_kept)
      with s1 s2 steps_shutdown [OF sh] sub k show ?thesis by auto
    qed
  qed
qed

lemma finally_clause_steps:
  assumes "finally_clause cb exc fs rs w = Some (r, w')" "valid fs w"
  shows "step\<^sup>*\<^sup>* w w'"
proof -
  from assms(1) obtain x w1 where c: "cancel_threads fs cb w = Some (x, w1)"
    by (auto simp: finally_clause_def split: option.splits)
  have s1: "step\<^sup>*\<^sup>* w w1" using c assms(2) by (rule steps_cancel_threads)
  show ?thesis
  proof (cases x)
    case (Inl e)
    with assms(1) c s1 show ?thesis by (simp add: finally_clause_def)
  next
    case (Inr kept)
    show ?thesis
    proof (cases exc)
      case (Some e)
      with assms(1) c Inr s1 show ?thesis by (simp add: finally_clause_def)
    next
      case None
      with assms(1) c Inr have "collect kept rs w1 = Some (r, w')"
        by (simp add: finally_clause_def)
      then have "step\<^sup>*\<^sup>* w1 w'" by (auto dest: pool_steps_collect pool_steps_steps)
      with s1 show ?thesis by simp
    qed
  qed
qed

text \<open>From the entry of the \<open>try\<close> block to the end of the call.\<close>

lemma run_in_threads_steps:
  assumes "launch methods max_workers cb schedule = Inr (futures, w)"
    and "run_in_threads methods max_workers cb sigint schedule = Some (r, w')"
  shows "step\<^sup>*\<^sup>* w w' \<and> list_all is_done (state w')"
proof -
  note run = assms(2) [unfolded run_in_threads_launch [OF assms(1)]]
  from run obtain exc fs rs w1 where
    t: "try_except sigint cb futures [] w = Some ((exc, fs, rs), w1)"
    by (auto simp: pool_exit_def split: option.splits)
  from run t obtain w2 where
    f: "finally_clause cb exc fs rs w1 = Some (r, w2)" and sh: "shutdown w2 = Some w'"
    by (auto simp: pool_exit_def split: option.splits)
  have v: "valid futures w" using assms(1) by (rule launch_valid)
  have s1: "step\<^sup>*\<^sup>* w w1" and sub: "set fs \<subseteq> set futures"
    using try_except_steps [OF t v] by simp_all
  have "valid fs w1" using v sub steps_valid [OF s1] by (auto intro: valid_subset)
  with f have s2: "step\<^sup>*\<^sup>* w1 w2" by (rule finally_clause_steps)
  from s1 s2 steps_shutdown [OF sh] have "step\<^sup>*\<^sup>* w w'" by simp
  with shutdown_done [OF sh] show ?thesis by simp
qed

lemma launch_error:
  "launch methods max_workers cb schedule = Inl e \<Longrightarrow>
   methods = [] \<and> run_in_threads methods max_workers cb sigint schedule
     = Some (Inl ValueError, new_pool 0 schedule)"
  by (auto simp: launch_def run_in_threads_def ThreadPoolExecutor_def Let_def
      split: if_splits)

section \<open>The results of a successful run\<close>

text \<open>
  The schedule lets the pool finish every future: left alone, the pool reaches a world
  in which all of them are terminal.
\<close>

definition completes :: "'r world \<Rightarrow> bool" where
  "completes w = (join_workers w \<noteq> None)"

lemma completes_pool_step: "completes w \<Longrightarrow> completes (pool_step w)"
proof (cases "list_all is_done (state w)")
  case True
  then have "list_all is_done (state (pool_step w))" by (rule all_done_pool_step)
  then show ?thesis by (simp add: completes_def join_workers.simps [of "pool_step w"])
next
  case False
  assume "completes w"
  with False show ?thesis
    by (auto simp: completes_def join_workers.simps [of w] split: if_splits)
qed

lemma completes_pool_steps: "pool_steps w w' \<Longrightarrow> completes w \<Longrightarrow> completes w'"
proof -
  have "completes w \<Longrightarrow> completes ((pool_step ^^ k) w)" for k
    by (induction k) (simp_all add: completes_pool_step)
  then show "pool_steps w w' \<Longrightarrow> completes w \<Longrightarrow> completes w'"
    unfolding pool_steps_def by blast
qed

lemma completes_idle: "completes w \<Longrightarrow> sched w = [] \<Longrightarrow> list_all is_done (state w)"
  by (auto simp: completes_def join_workers.simps [of w] split: if_splits)

lemma completes_shutdown: "completes w \<Longrightarrow> \<exists>w'. shutdown w = Some w'"
  using completes_pool_step [of w] by (auto simp: completes_def shutdown_def)

text \<open>Futures of the pool whose methods return and that nobody has cancelled.\<close>

definition sound :: "nat list \<Rightarrow> 'r world \<Rightarrow> bool" where
  "sound fs w =
     list_all (\<lambda>f. f < length (state w) \<and> state w ! f \<noteq> CANCELLED \<and> \<not> isl (task w ! f)) fs"

lemma pool_event_not_cancelled:
  "state w ! f \<noteq> CANCELLED \<Longrightarrow> f < length (state w) \<Longrightarrow> state (pool_event e w) ! f \<noteq> CANCELLED"
  by (cases e) (auto simp: invoke_callbacks_def completed_callback_def nth_list_update)

lemma fold_pool_event_not_cancelled:
  "state w ! f \<noteq> CANCELLED \<Longrightarrow> f < length (state w) \<Longrightarrow>
   state (fold pool_event b w) ! f \<noteq> CANCELLED"
proof (induction b arbitrary: w)
  case Nil
  then show ?case by simp
next
  case (Cons e b)
  have "state (pool_event e w) ! f \<noteq> CANCELLED" using Cons.prems by (rule pool_event_not_cancelled)
  moreover have "f < length (state (pool_event e w))" using Cons.prems(2) by simp
  ultimately show ?case using Cons.IH by simp
qed

lemma pool_step_not_cancelled:
  "state w ! f \<noteq> CANCELLED \<Longrightarrow> f < length (state w) \<Longrightarrow> state (pool_step w) ! f \<noteq> CANCELLED"
  by (cases "sched w") (simp_all add: pool_step_def fold_pool_event_not_cancelled)

lemma sound_pool_step: "sound fs w \<Longrightarrow> sound fs (pool_step w)"
  by (simp add: sound_def list_all_iff pool_step_not_cancelled)

lemma sound_pool_steps: "pool_steps w w' \<Longrightarrow> sound fs w \<Longrightarrow> sound fs w'"
proof -
  have "sound fs w \<Longrightarrow> sound fs ((pool_step ^^ k) w)" for k
    by (induction k) (simp_all add: sound_pool_step)
  then show "pool_steps w w' \<Longrightarrow> sound fs w \<Longrightarrow> sound fs w'"
    unfolding pool_steps_def by blast
qed

lemma sound_subset: "sound fs w \<Longrightarrow> set gs \<subseteq> set fs \<Longrightarrow> sound gs w"
  by (auto simp: sound_def list_all_iff)

lemma sound_first_raise: "sound fs w \<Longrightarrow> first_raise w fs = None"
  by (induction fs) (auto simp: sound_def outcome_def split: sum.splits)

lemma pool_steps_done_stable:
  "pool_steps w w' \<Longrightarrow> is_done (state w ! f) \<Longrightarrow> is_done (state w' ! f)"
  by (auto simp: pool_steps_def funpow_pool_step_done_stable)

lemma pool_steps_frame:
  "pool_steps w w' \<Longrightarrow> task w' = task w \<and> length (state w') = length (state w)"
  by (auto simp: pool_steps_def)

lemma results_of_pool_steps: "pool_steps w w' \<Longrightarrow> results_of w' fs = results_of w fs"
  by (simp add: results_of_def pool_steps_frame)

lemma any_not_done_settled:
  "any_not_done sigint fs w = (Inr False, sg, w') \<Longrightarrow> valid fs w \<Longrightarrow> settled fs w'"
proof (induction fs arbitrary: sigint w)
  case Nil
  then show ?case by (simp add: settled_def)
next
  case (Cons f fs)
  obtain d w1 where d: "future_done f w = (d, w1)" by (cases "future_done f w")
  with Cons.prems(1) have dn: "d" and rest: "any_not_done (later sigint) fs w1 = (Inr False, sg, w')"
    by (auto split: if_splits)
  have w1: "w1 = pool_step w" and done1: "is_done (state w1 ! f)"
    using d dn by (auto simp: future_done_def Let_def)
  have v: "valid fs w1" and f: "f < length (state w)"
    using Cons.prems(2) w1 by (simp_all add: valid_def)
  have "settled fs w'" using rest v by (rule Cons.IH)
  moreover have "pool_steps w1 w'" using rest by (rule pool_steps_any_not_done)
  then have "is_done (state w' ! f)" "length (state w') = length (state w1)"
    using done1 by (auto dest: pool_steps_done_stable pool_steps_frame)
  ultimately show ?case using f w1 by (simp add: settled_def)
qed

lemma first_done_found:
  "first_done sigint fs w = (Inr (Some f), sg, w') \<Longrightarrow> is_done (state w' ! f)"
proof (induction fs arbitrary: sigint w)
  case Nil
  then show ?case by simp
next
  case (Cons g fs)
  from Cons.prems have ns: "sigint \<noteq> Some 0" by (auto split: if_splits)
  obtain d w1 where d: "future_done g w = (d, w1)" by (cases "future_done g w")
  show ?case
  proof (cases d)
    case True
    with Cons.prems ns d show ?thesis by (auto simp: future_done_def Let_def)
  next
    case False
    with Cons.prems ns d have "first_done (later sigint) fs w1 = (Inr (Some f), sg, w')" by simp
    then show ?thesis by (rule Cons.IH)
  qed
qed

lemma any_not_done_all_done:
  "list_all is_done (state w) \<Longrightarrow> valid fs w \<Longrightarrow>
   \<exists>w'. any_not_done None fs w = (Inr False, None, w')"
proof (induction fs arbitrary: w)
  case Nil
  then show ?case by simp
next
  case (Cons f fs)
  have f: "f < length (state w)" and v: "valid fs w"
    using Cons.prems(2) by (simp_all add: valid_def)
  have "is_done (state w ! f)" using Cons.prems(1) f by (simp add: list_all_length)
  then have d: "future_done f w = (True, pool_step w)" by (rule future_done_done)
  have "list_all is_done (state (pool_step w))" using Cons.prems(1) by (rule all_done_pool_step)
  moreover have "valid fs (pool_step w)" using v by (simp add: valid_def)
  ultimately obtain w' where "any_not_done None fs (pool_step w) = (Inr False, None, w')"
    using Cons.IH by blast
  with d show ?case by (simp add: later_def)
qed

lemma mset_map_remove1:
  "f \<in> set xs \<Longrightarrow> mset (map g (remove1 f xs)) + {#g f#} = mset (map g xs)"
  by (induction xs) auto

lemma results_of_remove1:
  "f \<in> set fs \<Longrightarrow>
   mset (results_of w (remove1 f fs)) + {#projr (task w ! f)#} = mset (results_of w fs)"
  unfolding results_of_def by (rule mset_map_remove1)

text \<open>
  The polling loop when every method returns, nothing is cancelled, no interrupt
  arrives and the pool finishes every future: it ends normally, every future left in
  the list is terminal, and the collected results together with the results of the
  futures left in the list are those of the futures it started with.
\<close>

lemma poll_success:
  "sigint = None \<Longrightarrow> completes w \<Longrightarrow> sound futures w \<Longrightarrow>
   \<exists>fs rs w'. poll sigint futures results w = Some ((None, fs, rs), w')
     \<and> pool_steps w w' \<and> settled fs w' \<and> set fs \<subseteq> set futures
     \<and> mset (rs @ results_of w fs) = mset (results @ results_of w futures)"
proof (induction sigint futures results w rule: poll_pass_induct)
  case (pass sigint futures results w)
  note unfold = poll.simps [of sigint futures results w]
  have v: "valid futures w" using pass.prems(3) by (simp add: sound_def valid_def list_all_iff)
  obtain r sg1 w1 where a: "any_not_done sigint futures w = (r, sg1, w1)"
    by (cases "any_not_done sigint futures w")
  have s1: "pool_steps w w1" using a by (rule pool_steps_any_not_done)
  have sg1: "sg1 = None" using any_not_done_le [OF a] pass.prems(1) by simp
  obtain busy where r: "r = Inr busy"
    using a pass.prems(1) any_not_done_raise [of sigint futures w _ sg1 w1] by (cases r) auto
  show ?case
  proof (cases busy)
    case False
    have "poll sigint futures results w = Some ((None, futures, results), w1)"
      using a r False by (simp add: unfold)
    moreover have "settled futures w1" using a r False v by (auto intro: any_not_done_settled)
    ultimately show ?thesis using s1 by auto
  next
    case True
    obtain y sg2 w2 where b: "first_done sg1 futures w1 = (y, sg2, w2)"
      by (cases "first_done sg1 futures w1")
    have s2: "pool_steps w w2"
      using s1 pool_steps_first_done [OF b] by (rule pool_steps_trans)
    have sg2: "sg2 = None" using first_done_le [OF b] sg1 by simp
    obtain found where y: "y = Inr found"
      using b sg1 first_done_raise [of sg1 futures w1 _ sg2 w2] by (cases y) auto
    have a': "any_not_done sigint futures w = (Inr True, sg1, w1)" using a r True by simp
    show ?thesis
    proof (cases found)
      case None
      have b': "first_done sg1 futures w1 = (Inr None, sg2, w2)" using b y None by simp
      have ne: "sched w \<noteq> []"
      proof
        assume "sched w = []"
        with pass.prems(2) have "list_all is_done (state w)" by (rule completes_idle)
        then obtain w' where "any_not_done None futures w = (Inr False, None, w')"
          using v any_not_done_all_done by blast
        with a' pass.prems(1) show False by simp
      qed
      then have idle: "\<not> (sched w = [] \<and> sigint = None)" by simp
      have s3: "pool_steps w (sleep w2)"
        using s2 by (auto simp: sleep_def intro: pool_steps_trans)
      have c: "completes (sleep w2)" using s3 pass.prems(2) by (rule completes_pool_steps)
      have g: "sound futures (sleep w2)" using s3 pass.prems(3) by (rule sound_pool_steps)
      have n0: "sg2 \<noteq> Some 0" and lat: "later sg2 = None" using sg2 by simp_all
      from pass.IH(1) [OF a' b' n0 idle lat c g]
      obtain fs rs w' where
        r: "poll (later sg2) futures results (sleep w2) = Some ((None, fs, rs), w')"
        and p: "pool_steps (sleep w2) w'" "settled fs w'" "set fs \<subseteq> set futures"
        and m: "mset (rs @ results_of (sleep w2) fs) = mset (results @ results_of (sleep w2) futures)"
        by blast
      have "poll sigint futures results w = Some ((None, fs, rs), w')"
        using a' b' n0 ne r by (simp add: unfold)
      moreover have "pool_steps w w'" using s3 p(1) by (rule pool_steps_trans)
      moreover have "mset (rs @ results_of w fs) = mset (results @ results_of w futures)"
        using m by (simp add: results_of_pool_steps [OF s3])
      ultimately show ?thesis using p(2,3) by blast
    next
      case (Some future)
      have b': "first_done sg1 futures w1 = (Inr (Some future), sg2, w2)" using b y Some by simp
      have d: "is_done (state w2 ! future)" using b' by (rule first_done_found)
      have mem: "future \<in> set futures" using b' by (rule first_done_mem)
      have g2: "sound futures w2" using s2 pass.prems(3) by (rule sound_pool_steps)
      with mem have nc: "state w2 ! future \<noteq> CANCELLED" and ok: "\<not> isl (task w2 ! future)"
        by (auto simp: sound_def list_all_iff)
      then obtain val where val: "task w2 ! future = Inr val" by (cases "task w2 ! future") auto
      let ?w3 = "pool_step w2"
      have res: "future_result future w2 = Some (Inr val, ?w3)"
        using d nc val by (simp add: future_result_done)
      have s3: "pool_steps w ?w3" using s2 by (auto intro: pool_steps_trans)
      have c: "completes ?w3" using s3 pass.prems(2) by (rule completes_pool_steps)
      have g: "sound (remove1 future futures) ?w3"
        using sound_pool_steps [OF s3 pass.prems(3)] set_remove1_subset [of future futures]
        by (rule sound_subset)
      have n0: "sg2 \<noteq> Some 0" "later sg2 \<noteq> Some 0" "later (later sg2) \<noteq> Some 0"
        and lat: "later (later (later sg2)) = None"
        using sg2 by (simp_all add: later_def)
      from pass.IH(2) [OF a' b' n0(1,2) res n0(3) lat c g]
      obtain fs rs w' where
        r: "poll (later (later (later sg2))) (remove1 future futures) (results @ [val]) ?w3
              = Some ((None, fs, rs), w')"
        and p: "pool_steps ?w3 w'" "settled fs w'" "set fs \<subseteq> set (remove1 future futures)"
        and m: "mset (rs @ results_of ?w3 fs)
              = mset ((results @ [val]) @ results_of ?w3 (remove1 future futures))"
        by blast
      have "poll sigint futures results w = Some ((None, fs, rs), w')"
        using a' b' n0 res r by (simp add: unfold)
      moreover have "pool_steps w w'" using s3 p(1) by (rule pool_steps_trans)
      moreover have "set fs \<subseteq> set futures"
        using p(3) set_remove1_subset [of future futures] by auto
      moreover have "mset (rs @ results_of w fs) = mset (results @ results_of w futures)"
      proof -
        have "task w ! future = Inr val" using val pool_steps_frame [OF s2] by simp
        then have "projr (task w ! future) = val" by simp
        with results_of_remove1 [OF mem, of w] have
          "mset (results_of w (remove1 future futures)) + {#val#} = mset (results_of w futures)"
          by simp
        with m show ?thesis by (simp add: results_of_pool_steps [OF s3])
      qed
      ultimately show ?thesis using p(2) by blast
    qed
  qed
qed

lemma pool_event_uncancelled:
  "CANCELLED \<notin> set (state w) \<Longrightarrow> CANCELLED \<notin> set (state (pool_event e w))"
proof (cases e)
  case (Start f)
  assume "CANCELLED \<notin> set (state w)"
  then show ?thesis
    using set_update_subset_insert [of "state w" f RUNNING] by (auto simp: Start)
next
  case (Finish f)
  assume "CANCELLED \<notin> set (state w)"
  then show ?thesis
    using set_update_subset_insert [of "state w" f FINISHED]
    by (auto simp: Finish invoke_callbacks_def completed_callback_def)
qed

lemma pool_step_uncancelled:
  "CANCELLED \<notin> set (state w) \<Longrightarrow> CANCELLED \<notin> set (state (pool_step w))"
proof -
  have "CANCELLED \<notin> set (state v) \<Longrightarrow> CANCELLED \<notin> set (state (fold pool_event b v))" for b v
    by (induction b arbitrary: v) (simp_all add: pool_event_uncancelled)
  from this [of "w\<lparr>sched := tl (sched w)\<rparr>"] show "CANCELLED \<notin> set (state w) \<Longrightarrow> ?thesis"
    by (cases "sched w") (simp_all add: pool_step_def)
qed

lemma submit_all_uncancelled:
  "submit_all ms w = (fs, w') \<Longrightarrow> CANCELLED \<notin> set (state w) \<Longrightarrow>
   CANCELLED \<notin> set (state w') \<and> task w' = task w @ ms"
proof (induction ms arbitrary: w fs w')
  case Nil
  then show ?case by simp
next
  case (Cons m ms)
  obtain f w1 where s: "submit m w = (f, w1)" by (cases "submit m w")
  obtain gs w2 where r: "submit_all ms w1 = (gs, w2)" by (cases "submit_all ms w1")
  have "CANCELLED \<notin> set (state w1)" "task w1 = task w @ [m]"
    using s pool_step_uncancelled [OF Cons.prems(2)] by (auto simp: submit_def Let_def)
  with Cons.IH [OF r] have "CANCELLED \<notin> set (state w2)" "task w2 = task w @ m # ms" by simp_all
  with Cons.prems(1) s r show ?case by simp
qed

lemma add_callbacks_uncancelled:
  "CANCELLED \<notin> set (state w) \<Longrightarrow>
   CANCELLED \<notin> set (state (add_callbacks fs w)) \<and> task (add_callbacks fs w) = task w"
proof (induction fs arbitrary: w)
  case Nil
  then show ?case by simp
next
  case (Cons f fs)
  have "CANCELLED \<notin> set (state (add_done_callback f w))"
    "task (add_done_callback f w) = task w"
    using pool_step_uncancelled [OF Cons.prems]
    by (simp_all add: add_done_callback_def Let_def completed_callback_def)
  with Cons.IH [of "add_done_callback f w"] show ?case by simp
qed

lemma launch_sound:
  assumes "launch methods max_workers cb schedule = Inr (futures, w)"
    and "list_all (\<lambda>m. \<not> isl m) methods"
  shows "sound futures w \<and> results_of w futures = map projr methods"
proof -
  let ?n = "if max_workers \<le> 0 then int (length methods) else max_workers"
  let ?p = "new_pool (nat ?n) schedule :: 'a world"
  obtain fs w1 where s: "submit_all methods ?p = (fs, w1)" by (cases "submit_all methods ?p")
  have "CANCELLED \<notin> set (state ?p)" by (simp add: new_pool_def)
  from submit_all_uncancelled [OF s this] have u1: "CANCELLED \<notin> set (state w1)"
    and t1: "task w1 = methods" by (simp_all add: new_pool_def)
  have w: "w = (if cb then add_callbacks fs w1 else w1)"
    using assms(1) s by (auto simp: launch_def ThreadPoolExecutor_def Let_def split: if_splits)
  have u: "CANCELLED \<notin> set (state w)" and t: "task w = methods"
    using w u1 t1 add_callbacks_uncancelled [OF u1, of fs] by (auto split: if_splits)
  have f: "futures = [0..<length methods]" and l: "length (state w) = length methods"
    using launch_futures [OF assms(1)] by simp_all
  have "sound futures w"
    unfolding sound_def list_all_iff
  proof
    fix g assume "g \<in> set futures"
    then have g: "g < length methods" using f by simp
    then have "state w ! g \<in> set (state w)" using l by simp
    with u have "state w ! g \<noteq> CANCELLED" by metis
    moreover have "\<not> isl (task w ! g)" using assms(2) g t by (simp add: list_all_length)
    ultimately show "g < length (state w) \<and> state w ! g \<noteq> CANCELLED \<and> \<not> isl (task w ! g)"
      using g l by simp
  qed
  moreover have "results_of w futures = map projr methods"
    unfolding results_of_def f t by (rule nth_equalityI) simp_all
  ultimately show ?thesis by simp
qed

section \<open>What a sweep leaves behind\<close>

lemma wait_done_is_done: "wait_done f w = Some w' \<Longrightarrow> is_done (state w' ! f)"
proof (induction f w rule: wait_done.induct)
  case (1 f w)
  show ?case
  proof (cases "is_done (state w ! f)")
    case True
    with "1.prems" show ?thesis by (simp add: wait_done.simps [of f w])
  next
    case False
    then have ne: "sched w \<noteq> []" and rec: "wait_done f (pool_step w) = Some w'"
      using "1.prems" by (auto simp: wait_done.simps [of f w] split: if_splits)
    from "1.IH" [OF False ne rec] show ?thesis .
  qed
qed

text \<open>\<open>result()\<close> returns or raises the outcome of the future, which is terminal by then.\<close>

lemma future_result_outcome:
  "future_result f w = Some (r, w') \<Longrightarrow> is_done (state w' ! f) \<and> r = outcome w' f"
  by (auto simp: future_result_def outcome_def split: option.splits dest: wait_done_is_done)

lemma future_exception_outcome:
  "future_exception f w = Some (r, w') \<Longrightarrow>
   is_done (state w' ! f)
   \<and> r = (if state w' ! f = CANCELLED then Inl CancelledError
          else Inr (case task w' ! f of Inl e \<Rightarrow> Some e | Inr v \<Rightarrow> None))"
  by (auto simp: future_exception_def split: option.splits dest: wait_done_is_done)

lemma cancel_branch_outcome:
  "cancel_branch f cb w = Some (r, w') \<Longrightarrow> is_done (state w' ! f) \<and> r = outcome w' f"
  by (auto simp: cancel_branch_def split: prod.splits dest: future_result_outcome)

lemma outcome_Inr:
  "is_done (state w ! f) \<Longrightarrow> outcome w f = Inr v \<Longrightarrow>
   state w ! f = FINISHED \<and> task w ! f = Inr v"
  by (auto simp: outcome_def is_done_def split: if_splits)

text \<open>
  The body of the sweep leaves its future terminal. What it raises is the outcome of
  the future; a future it does not raise for has finished, and one it neither raises
  for nor keeps has finished successfully.
\<close>

lemma cancel_one_post:
  assumes "cancel_one f cb w = Some (x, w')" "f < length (state w)"
  shows "is_done (state w' ! f)
    \<and> (case x of
         Inl e \<Rightarrow> outcome w' f = Inl e
       | Inr keep \<Rightarrow> state w' ! f = FINISHED \<and> (\<not> keep \<longrightarrow> \<not> isl (task w' ! f)))"
proof -
  obtain d1 w1 where d1: "future_done f w = (d1, w1)" by (cases "future_done f w")
  then have w1: "w1 = pool_step w" and d1v: "d1 = is_done (state w1 ! f)"
    by (auto simp: future_done_def Let_def)
  have l1: "f < length (state w1)" using assms(2) w1 by simp
  let ?ex = "if d1 then future_exception f w1 else Some (Inr None, w1)"
  from assms(1) d1 obtain y w2 where ex: "?ex = Some (y, w2)"
    by (auto simp: cancel_one_def split: option.splits)
  show ?thesis
  proof (cases y)
    case (Inl e)
    with ex have d: "d1" and fe: "future_exception f w1 = Some (Inl e, w2)"
      by (auto split: if_splits)
    from future_exception_outcome [OF fe] have "is_done (state w2 ! f)" "outcome w2 f = Inl e"
      by (auto simp: outcome_def split: if_splits)
    moreover have "x = Inl e" "w' = w2"
      using assms(1) d1 ex Inl by (auto simp: cancel_one_def)
    ultimately show ?thesis by simp
  next
    case (Inr v)
    show ?thesis
    proof (cases "truth_value v")
      case True
      from assms(1) d1 ex Inr True obtain z where
        fr: "future_result f w2 = Some (z, w')" and x: "x = (case z of Inl e \<Rightarrow> Inl e | Inr u \<Rightarrow> Inr False)"
        by (auto simp: cancel_one_def split: option.splits sum.splits)
      from future_result_outcome [OF fr] have dn: "is_done (state w' ! f)" and z: "outcome w' f = z"
        by simp_all
      show ?thesis
      proof (cases z)
        case (Inl e)
        with x z dn show ?thesis by simp
      next
        case (Inr u)
        with z dn outcome_Inr [of w' f u] x show ?thesis by simp
      qed
    next
      case False
      have nc2: "state w2 ! f \<noteq> CANCELLED" and l2: "f < length (state w2)"
      proof -
        show "state w2 ! f \<noteq> CANCELLED"
        proof (cases d1)
          case True
          with ex Inr have "future_exception f w1 = Some (Inr v, w2)" by simp
          from future_exception_outcome [OF this] show ?thesis by (auto split: if_splits)
        next
          case no: False
          with ex have "w2 = w1" by simp
          with no d1v show ?thesis by (auto simp: is_done_def)
        qed
        show "f < length (state w2)"
        proof (cases d1)
          case True
          with ex Inr have "future_exception f w1 = Some (Inr v, w2)" by simp
          then have "step\<^sup>*\<^sup>* w1 w2" by (rule steps_future_exception)
          with l1 show ?thesis by (simp add: steps_frame)
        next
          case no: False
          with ex l1 show ?thesis by simp
        qed
      qed
      obtain d2 w3 where d2: "future_done f w2 = (d2, w3)" by (cases "future_done f w2")
      then have w3: "w3 = pool_step w2" and d2v: "d2 = is_done (state w3 ! f)"
        by (auto simp: future_done_def Let_def)
      have nc3: "state w3 ! f \<noteq> CANCELLED"
        unfolding w3 using nc2 l2 by (rule pool_step_not_cancelled)
      show ?thesis
      proof (cases d2)
        case True
        with assms(1) d1 ex Inr False d2 have "x = Inr True" "w' = w3"
          by (auto simp: cancel_one_def)
        moreover have "state w3 ! f = FINISHED" using True d2v nc3 by (auto simp: is_done_def)
        ultimately show ?thesis by (simp add: is_done_def)
      next
        case nd: False
        from assms(1) d1 ex Inr False d2 nd obtain z where
          cb: "cancel_branch f cb w3 = Some (z, w')"
          and x: "x = (case z of Inl e \<Rightarrow> Inl e | Inr u \<Rightarrow> Inr False)"
          by (auto simp: cancel_one_def split: option.splits sum.splits)
        from cancel_branch_outcome [OF cb] have dn: "is_done (state w' ! f)"
          and z: "outcome w' f = z" by simp_all
        show ?thesis
        proof (cases z)
          case (Inl e)
          with x z dn show ?thesis by simp
        next
          case (Inr u)
          with z dn outcome_Inr [of w' f u] x show ?thesis by simp
        qed
      qed
    qed
  qed
qed

lemma steps_outcome:
  "step\<^sup>*\<^sup>* w w' \<Longrightarrow> is_done (state w ! f) \<Longrightarrow> outcome w' f = outcome w f"
  by (simp add: outcome_def steps_done_stable steps_frame)

lemma cancel_loop_acc:
  "cancel_loop fs cb acc w = Some (Inr kept, w') \<Longrightarrow> set acc \<subseteq> set kept"
proof (induction fs arbitrary: acc w)
  case Nil
  then show ?case by simp
next
  case (Cons f fs)
  from Cons.prems obtain keep w1 where
    "cancel_loop fs cb (if keep then acc @ [f] else acc) w1 = Some (Inr kept, w')"
    by (auto split: option.splits sum.splits)
  from Cons.IH [OF this] show ?case by (auto split: if_splits)
qed

text \<open>
  A sweep that raises stops at a future of the list: it raises the outcome of that
  future, the futures before it have finished, and the futures after it play no part.
\<close>

lemma cancel_loop_raise:
  "cancel_loop fs cb acc w = Some (Inl e, w') \<Longrightarrow> valid fs w \<Longrightarrow>
   \<exists>i<length fs. is_done (state w' ! (fs ! i)) \<and> outcome w' (fs ! i) = Inl e
     \<and> (\<forall>j<i. state w' ! (fs ! j) = FINISHED)
     \<and> cancel_loop (take (Suc i) fs) cb acc w = Some (Inl e, w')"
proof (induction fs arbitrary: acc w)
  case Nil
  then show ?case by simp
next
  case (Cons f fs)
  from Cons.prems(2) have f: "f < length (state w)" and v: "valid fs w"
    by (simp_all add: valid_def)
  from Cons.prems(1) obtain x w1 where one: "cancel_one f cb w = Some (x, w1)"
    by (auto split: option.splits)
  note post = cancel_one_post [OF one f]
  show ?case
  proof (cases x)
    case (Inl e')
    with Cons.prems(1) one have "e' = e" "w1 = w'" by simp_all
    with post Inl one have "is_done (state w' ! ((f # fs) ! 0))"
      "outcome w' ((f # fs) ! 0) = Inl e"
      "cancel_loop (take (Suc 0) (f # fs)) cb acc w = Some (Inl e, w')"
      by simp_all
    then show ?thesis by (intro exI [of _ 0]) simp
  next
    case (Inr keep)
    let ?acc = "if keep then acc @ [f] else acc"
    have rest: "cancel_loop fs cb ?acc w1 = Some (Inl e, w')"
      using Cons.prems(1) one Inr by simp
    have s1: "step\<^sup>*\<^sup>* w w1" using one f by (rule steps_cancel_one)
    have v1: "valid fs w1" using v steps_valid [OF s1] by simp
    from Cons.IH [OF rest v1] obtain i where i: "i < length fs"
      and a: "is_done (state w' ! (fs ! i))" "outcome w' (fs ! i) = Inl e"
      and b: "\<forall>j<i. state w' ! (fs ! j) = FINISHED"
      and c: "cancel_loop (take (Suc i) fs) cb ?acc w1 = Some (Inl e, w')"
      by blast
    have s2: "step\<^sup>*\<^sup>* w1 w'" using rest v1 by (rule steps_cancel_loop)
    have fin: "state w' ! f = FINISHED"
      using post Inr steps_done_stable [OF s2, of f] by (simp add: is_done_def)
    have "\<forall>j<Suc i. state w' ! ((f # fs) ! j) = FINISHED"
      using b fin by (auto simp: less_Suc_eq_0_disj)
    moreover have "cancel_loop (take (Suc (Suc i)) (f # fs)) cb acc w = Some (Inl e, w')"
      using one Inr c by simp
    ultimately show ?thesis using i a by (intro exI [of _ "Suc i"]) simp
  qed
qed

text \<open>
  A sweep that completes has found every future of the list finished, or has waited
  until it was; the futures it does not keep have finished successfully.
\<close>

lemma cancel_loop_complete:
  "cancel_loop fs cb acc w = Some (Inr kept, w') \<Longrightarrow> valid fs w \<Longrightarrow>
   (\<forall>g\<in>set fs. state w' ! g = FINISHED \<and> (g \<notin> set kept \<longrightarrow> \<not> isl (task w' ! g)))"
proof (induction fs arbitrary: acc w)
  case Nil
  then show ?case by simp
next
  case (Cons f fs)
  from Cons.prems(2) have f: "f < length (state w)" and v: "valid fs w"
    by (simp_all add: valid_def)
  from Cons.prems(1) obtain x w1 where one: "cancel_one f cb w = Some (x, w1)"
    by (auto split: option.splits)
  from Cons.prems(1) one obtain keep where x: "x = Inr keep"
    by (cases x) auto
  note post = cancel_one_post [OF one f]
  let ?acc = "if keep then acc @ [f] else acc"
  have rest: "cancel_loop fs cb ?acc w1 = Some (Inr kept, w')"
    using Cons.prems(1) one x by simp
  have s1: "step\<^sup>*\<^sup>* w w1" using one f by (rule steps_cancel_one)
  have v1: "valid fs w1" using v steps_valid [OF s1] by simp
  have s2: "step\<^sup>*\<^sup>* w1 w'" using rest v1 by (rule steps_cancel_loop)
  have fin: "state w' ! f = FINISHED"
    using post x steps_done_stable [OF s2, of f] by (simp add: is_done_def)
  have "\<not> isl (task w' ! f)" if "f \<notin> set kept"
  proof -
    from that cancel_loop_acc [OF rest] have "\<not> keep" by (auto split: if_splits)
    with post x have "\<not> isl (task w1 ! f)" by simp
    then show ?thesis using steps_frame [OF s2] by simp
  qed
  with fin Cons.IH [OF rest v1] show ?case by simp
qed

lemma cancel_threads_raise:
  "cancel_threads fs cb w = Some (Inl e, w') \<Longrightarrow> valid fs w \<Longrightarrow>
   \<exists>i<length fs. is_done (state w' ! (fs ! i)) \<and> outcome w' (fs ! i) = Inl e
     \<and> (\<forall>j<i. state w' ! (fs ! j) = FINISHED)
     \<and> cancel_threads (take (Suc i) fs) cb w = Some (Inl e, w')"
  unfolding cancel_threads_def by (rule cancel_loop_raise)

lemma cancel_threads_complete:
  "cancel_threads fs cb w = Some (Inr kept, w') \<Longrightarrow> valid fs w \<Longrightarrow>
   (\<forall>g\<in>set fs. state w' ! g = FINISHED \<and> (g \<notin> set kept \<longrightarrow> \<not> isl (task w' ! g)))"
  unfolding cancel_threads_def by (rule cancel_loop_complete)



text \<open>
  When the polling loop ends, every future it has dropped from the list is terminal,
  and an exception other than the interrupt is the outcome of a future it has dropped.
\<close>

lemma poll_dropped:
  "poll sigint futures results w = Some ((exc, fs, rs), w') \<Longrightarrow>
   \<forall>g\<in>set futures. g \<notin> set fs \<longrightarrow> is_done (state w' ! g)"
proof (induction sigint futures results w rule: poll_pass_induct)
  case (pass sigint futures results w)
  have keep: "is_done (state w' ! g)"
    if a: "first_done sg1 futures w1 = (Inr (Some g), sg2, w2)" and s: "pool_steps w2 w'"
    for sg1 w1 sg2 w2 g
    using first_done_found [OF a] s by (auto dest: pool_steps_done_stable)
  note run = pass.prems [unfolded poll.simps [of sigint futures results w]]
  obtain r sg1 w1 where a: "any_not_done sigint futures w = (r, sg1, w1)"
    by (cases "any_not_done sigint futures w")
  show ?case
  proof (cases "r = Inr True")
    case False
    with a run have "fs = futures" by (auto split: sum.splits bool.splits)
    then show ?thesis by simp
  next
    case True
    with a have a': "any_not_done sigint futures w = (Inr True, sg1, w1)" by simp
    obtain y sg2 w2 where f: "first_done sg1 futures w1 = (y, sg2, w2)"
      by (cases "first_done sg1 futures w1")
    show ?thesis
    proof (cases y)
      case (Inl e)
      with a' f run have "fs = futures" by simp
      then show ?thesis by simp
    next
      case (Inr found)
      show ?thesis
      proof (cases found)
        case None
        with Inr f have f': "first_done sg1 futures w1 = (Inr None, sg2, w2)" by simp
        show ?thesis
        proof (cases "sg2 = Some 0")
          case True
          with a' f' run have "fs = futures" by simp
          then show ?thesis by simp
        next
          case False
          with a' f' run have idle: "\<not> (sched w = [] \<and> sigint = None)"
            and rec: "poll (later sg2) futures results (sleep w2) = Some ((exc, fs, rs), w')"
            by (auto split: if_splits)
          from pass.IH(1) [OF a' f' False idle rec] show ?thesis .
        qed
      next
        case (Some future)
        with Inr f have f': "first_done sg1 futures w1 = (Inr (Some future), sg2, w2)" by simp
        have d2: "is_done (state w2 ! future)" using f' by (rule first_done_found)
        have rm: "g = future \<or> g \<in> set (remove1 future futures)" if "g \<in> set futures" for g
          using that by (cases "g = future") simp_all
        show ?thesis
        proof (cases "sg2 = Some 0")
          case True
          with a' f' run have "fs = futures" by simp
          then show ?thesis by simp
        next
          case nz: False
          show ?thesis
          proof (cases "later sg2 = Some 0")
            case True
            with a' f' nz run have "fs = remove1 future futures" "w' = w2" by simp_all
            with d2 rm show ?thesis by auto
          next
            case nz1: False
            from a' f' nz nz1 run obtain z w3 where
              res: "future_result future w2 = Some (z, w3)"
              by (auto split: option.splits)
            have d3: "is_done (state w3 ! future)"
              using d2 pool_steps_future_result [OF res] by (rule pool_steps_done_stable [rotated])
            show ?thesis
            proof (cases z)
              case (Inl e)
              with a' f' nz nz1 res run have "fs = remove1 future futures" "w' = w3" by simp_all
              with d3 rm show ?thesis by auto
            next
              case (Inr v)
              show ?thesis
              proof (cases "later (later sg2) = Some 0")
                case True
                with a' f' nz nz1 res Inr run have "fs = remove1 future futures" "w' = w3"
                  by simp_all
                with d3 rm show ?thesis by auto
              next
                case nz2: False
                with a' f' nz nz1 res Inr run have
                  rec: "poll (later (later (later sg2))) (remove1 future futures) (results @ [v]) w3
                          = Some ((exc, fs, rs), w')"
                  by simp
                have res': "future_result future w2 = Some (Inr v, w3)" using res Inr by simp
                from pass.IH(2) [OF a' f' nz nz1 res' nz2 rec]
                have ih: "\<forall>g\<in>set (remove1 future futures). g \<notin> set fs \<longrightarrow> is_done (state w' ! g)" .
                have "pool_steps w3 w'" using poll_sound [OF rec] by simp
                then have "is_done (state w' ! future)" using d3 by (rule pool_steps_done_stable)
                with ih rm show ?thesis by auto
              qed
            qed
          qed
        qed
      qed
    qed
  qed
qed

lemma poll_raise_outcome:
  "poll sigint futures results w = Some ((Some e, fs, rs), w') \<Longrightarrow> e \<noteq> KeyboardInterrupt \<Longrightarrow>
   distinct futures \<Longrightarrow>
   \<exists>g\<in>set futures. g \<notin> set fs \<and> is_done (state w' ! g) \<and> outcome w' g = Inl e"
proof (induction sigint futures results w rule: poll_pass_induct)
  case (pass sigint futures results w)
  from pass.prems(1) show ?case
  proof (cases rule: poll_cases)
    case interrupt
    with pass.prems(2) show ?thesis by simp
  next
    case (idle sg1)
    then show ?thesis by simp
  next
    case (raise sg1 w1 sg2 w2 future e')
    have "future \<in> set futures" using raise(2) by (rule first_done_mem)
    moreover have "future \<notin> set fs" using raise(5) pass.prems(3) by simp
    moreover have "is_done (state w' ! future) \<and> Inl e' = outcome w' future"
      using raise(3) by (rule future_result_outcome)
    ultimately show ?thesis using raise(4) by auto
  next
    case (sleep sg1 w1 sg2 w2)
    from pass.IH(1) [OF sleep pass.prems(2,3)] show ?thesis .
  next
    case (append sg1 w1 future sg2 w2 v w3)
    have "distinct (remove1 future futures)" using pass.prems(3) by simp
    from pass.IH(2) [OF append pass.prems(2) this]
    show ?thesis using set_remove1_subset [of future futures] by auto
  qed
qed

text \<open>
  When the sweep over the futures the polling loop left completes, every future of the
  pool is terminal: joining the workers does not wait.
\<close>

lemma sweep_complete_all_done:
  assumes "launch methods max_workers cb schedule = Inr (futures, w)"
    and "poll sigint futures results w = Some ((exc, fs, rs), w1)"
    and "cancel_threads fs cb w1 = Some (Inr kept, w2)"
  shows "list_all is_done (state w2)"
proof -
  have fut: "futures = [0..<length methods]" and len: "length (state w) = length methods"
    using launch_futures [OF assms(1)] by simp_all
  have sub: "set fs \<subseteq> set futures" and s1: "step\<^sup>*\<^sup>* w w1"
    using poll_sound [OF assms(2)] by (auto dest: pool_steps_steps)
  have v1: "valid fs w1"
    using launch_valid [OF assms(1)] sub steps_valid [OF s1] by (auto intro: valid_subset)
  have s2: "step\<^sup>*\<^sup>* w1 w2" using assms(3) v1 by (rule steps_cancel_threads)
  have len2: "length (state w2) = length methods"
    using len steps_frame [OF s1] steps_frame [OF s2] by simp
  have "is_done (state w2 ! g)" if "g < length methods" for g
  proof (cases "g \<in> set fs")
    case True
    with cancel_threads_complete [OF assms(3) v1] show ?thesis by (simp add: is_done_def)
  next
    case False
    have "g \<in> set futures" using that fut by simp
    with poll_dropped [OF assms(2)] False have "is_done (state w1 ! g)" by simp
    then show ?thesis using steps_done_stable [OF s2, of g] by simp
  qed
  then show ?thesis using len2 by (simp add: list_all_length)
qed

section \<open>The order of the results\<close>

text \<open>
  Two methods on two workers; the second one finishes first. The first two batches
  precede the calls of \<open>submit\<close>, the third the first \<open>done()\<close> of the polling loop.
\<close>

definition late_first :: "event list list" where
  "late_first = [[], [], [Start 0, Start 1, Finish 1], [], [], [], [Finish 0]]"

text \<open>
  Claim C1 as stated fails. The methods return \<open>10\<close> and \<open>20\<close>. The polling loop finds
  future 1 done while future 0 is running and collects \<open>20\<close>; future 0 is done before the
  next test of the \<open>while\<close> condition, stays in the list, and its \<open>10\<close> is appended after
  the \<open>finally\<close> clause. The call returns \<open>[20, 10]\<close>, not \<open>[10, 20]\<close>.
\<close>

theorem completion_order_counterexample:
  "run_in_threads [Inr (10::nat), Inr 20] 0 False None late_first
     = Some (Inr [20, 10],
         \<lparr>task = [Inr 10, Inr 20], state = [FINISHED, FINISHED],
          registered = [False, False], calls = [], workers = 2, sched = []\<rparr>)"
  by code_simp

text \<open>
  Claim C1, amended. When the pool can be created, every method returns, no interrupt
  arrives and the schedule lets the pool finish every future, \<open>run_in_threads\<close> returns
  a list with one result for each submitted method: a permutation of the values the
  methods return (in the order fixed by the polling loop, not the order of submission).
\<close>

theorem results_are_permutation:
  assumes "launch methods max_workers cb schedule = Inr (futures, w)"
    and "list_all (\<lambda>m. \<not> isl m) methods"
    and "completes w"
  shows "\<exists>rs w'. run_in_threads methods max_workers cb None schedule = Some (Inr rs, w')
    \<and> mset rs = mset (map projr methods) \<and> length rs = length methods"
proof -
  have g: "sound futures w" and all: "results_of w futures = map projr methods"
    using launch_sound [OF assms(1,2)] by simp_all
  from poll_success [OF refl assms(3) g, of "[]"] obtain fs rs w1 where
    p: "poll None futures [] w = Some ((None, fs, rs), w1)"
    and s1: "pool_steps w w1" and st: "settled fs w1" and sub: "set fs \<subseteq> set futures"
    and m: "mset (rs @ results_of w fs) = mset ([] @ results_of w futures)"
    by blast
  have t: "try_except None cb futures [] w = Some ((None, fs, rs), w1)"
    using p by (simp add: try_except_def)
  have "sound fs w1" using sound_pool_steps [OF s1 g] sub by (rule sound_subset)
  then have nr: "first_raise w1 fs = None" by (rule sound_first_raise)
  then have ns: "sweep_raise w1 fs = None" by (rule sweep_raise_first_raise)
  from finally_clause_settled [OF st, of cb rs] nr ns obtain k where
    f: "finally_clause cb None fs rs w1 = Some (Inr (rs @ results_of w1 fs), (pool_step ^^ k) w1)"
    by auto
  let ?w2 = "(pool_step ^^ k) w1"
  have "pool_steps w ?w2"
    using s1 by (rule pool_steps_trans) (auto simp: pool_steps_def)
  then have "completes ?w2" using assms(3) by (rule completes_pool_steps)
  then obtain w' where sh: "shutdown ?w2 = Some w'" using completes_shutdown by blast
  let ?rs = "rs @ results_of w1 fs"
  have "run_in_threads methods max_workers cb None schedule = Some (Inr ?rs, w')"
    using t f sh by (simp add: run_in_threads_launch [OF assms(1)] pool_exit_def)
  moreover have ms: "mset ?rs = mset (map projr methods)"
    using m all by (simp add: results_of_pool_steps [OF s1])
  moreover have "length ?rs = length methods"
    using ms mset_eq_length [of ?rs "map projr methods"] by simp
  ultimately show ?thesis by blast
qed

text \<open>Claim C1, amended, on the run of the counterexample.\<close>

theorem results_are_permutation_witness:
  "launch [Inr (10::nat), Inr 20] 0 False late_first
     = Inr ([0, 1],
         \<lparr>task = [Inr 10, Inr 20], state = [PENDING, PENDING],
          registered = [False, False], calls = [], workers = 2,
          sched = [[Start 0, Start 1, Finish 1], [], [], [], [Finish 0]]\<rparr>)
   \<and> list_all (\<lambda>m. \<not> isl m) [Inr 10, Inr 20 :: exn + nat]
   \<and> completes
        \<lparr>task = [Inr (10::nat), Inr 20], state = [PENDING, PENDING],
         registered = [False, False], calls = [], workers = 2,
         sched = [[Start 0, Start 1, Finish 1], [], [], [], [Finish 0]]\<rparr>
   \<and> (\<exists>rs w'. run_in_threads [Inr (10::nat), Inr 20] 0 False None late_first = Some (Inr rs, w')
        \<and> mset rs = mset (map projr [Inr 10, Inr 20 :: exn + nat])
        \<and> length rs = length [Inr 10, Inr 20 :: exn + nat])"
proof -
  let ?w = "\<lparr>task = [Inr (10::nat), Inr 20], state = [PENDING, PENDING],
         registered = [False, False], calls = [], workers = 2,
         sched = [[Start 0, Start 1, Finish 1], [], [], [], [Finish 0]]\<rparr>"
  have l: "launch [Inr (10::nat), Inr 20] 0 False late_first = Inr ([0, 1], ?w)" by code_simp
  have a: "list_all (\<lambda>m. \<not> isl m) [Inr 10, Inr 20 :: exn + nat]" by simp
  have c: "completes ?w" by code_simp
  note r = results_are_permutation [OF l a c]
  show ?thesis by (rule conjI [OF l conjI [OF a conjI [OF c r]]])
qed

section \<open>A negative worker count\<close>

text \<open>
  Claim C2 as stated fails: with \<open>max_workers = -1\<close> and one method that returns \<open>1\<close>,
  nothing is rejected. The worker count becomes the length of the list, the method is
  submitted and run, and \<open>run_in_threads\<close> returns \<open>[1]\<close>. (The first batch of the
  schedule precedes \<open>submit\<close>, the second the first \<open>done()\<close> of the polling loop.)
\<close>

theorem negative_workers_counterexample:
  "run_in_threads [Inr (1::nat)] (- 1) False None [[], [Start 0, Finish 0]]
     = Some (Inr [1],
         \<lparr>task = [Inr 1], state = [FINISHED], registered = [False], calls = [],
          workers = 1, sched = []\<rparr>)"
  by code_simp

text \<open>
  Claim C2, amended. A negative \<open>max_workers\<close> is not rejected; the guard
  \<open>max_workers <= 0\<close> treats it as \<open>0\<close>: the call behaves exactly as the call with
  \<open>max_workers = 0\<close>, whatever the methods, the callback, the interrupt and the schedule.
  An error before any submission arises only for the empty list, from the constructor
  of the pool; for a list that is not empty every method has been submitted when the
  call ends.
\<close>

theorem negative_workers_as_zero:
  assumes "max_workers < 0"
  shows "run_in_threads methods max_workers cb sigint schedule
      = run_in_threads methods 0 cb sigint schedule
    \<and> run_in_threads [] max_workers cb sigint schedule
      = Some (Inl ValueError, new_pool 0 schedule)
    \<and> (\<forall>r w'. methods \<noteq> [] \<longrightarrow>
          run_in_threads methods max_workers cb sigint schedule = Some (r, w') \<longrightarrow>
          length (state w') = length methods)"
proof -
  have "length (state w') = length methods"
    if ne: "methods \<noteq> []"
      and run: "run_in_threads methods max_workers cb sigint schedule = Some (r, w')" for r w'
  proof (cases "launch methods max_workers cb schedule :: exn + nat list \<times> 'a world")
    case (Inl e)
    with launch_error [OF Inl] ne show ?thesis by simp
  next
    case (Inr fw)
    obtain futures w where fw: "fw = (futures, w)" by (cases fw)
    have l: "launch methods max_workers cb schedule = Inr (futures, w)" using Inr fw by simp
    have "step\<^sup>*\<^sup>* w w'" using run_in_threads_steps [OF l run] by simp
    then show ?thesis using launch_futures [OF l] by (simp add: steps_frame)
  qed
  with assms show ?thesis by (simp add: run_in_threads_def ThreadPoolExecutor_def)
qed

text \<open>Claim C2, amended, at \<open>max_workers = -1\<close> on the run of the counterexample.\<close>

theorem negative_workers_as_zero_witness:
  "(- 1 :: int) < 0 \<and>
   run_in_threads [Inr (1::nat)] (- 1) False None [[], [Start 0, Finish 0]]
     = run_in_threads [Inr 1] 0 False None [[], [Start 0, Finish 0]]
   \<and> run_in_threads ([] :: (exn + nat) list) (- 1) False None [[], [Start 0, Finish 0]]
     = Some (Inl ValueError, new_pool 0 [[], [Start 0, Finish 0]])
   \<and> run_in_threads [Inr (1::nat)] (- 1) False None [[], [Start 0, Finish 0]]
     = Some (Inr [1],
         \<lparr>task = [Inr 1], state = [FINISHED], registered = [False], calls = [],
          workers = 1, sched = []\<rparr>)
   \<and> length (state \<lparr>task = [Inr (1::nat)], state = [FINISHED], registered = [False], calls = [],
          workers = 1, sched = []\<rparr>) = length [Inr (1::nat) :: exn + nat]"
proof -
  have n: "(- 1 :: int) < 0" by simp
  have r: "run_in_threads [Inr (1::nat)] (- 1) False None [[], [Start 0, Finish 0]]
     = Some (Inr [1],
         \<lparr>task = [Inr 1], state = [FINISHED], registered = [False], calls = [],
          workers = 1, sched = []\<rparr>)" by code_simp
  show ?thesis
    using n r negative_workers_as_zero [OF n, of "[Inr (1::nat)]" False None
        "[[], [Start 0, Finish 0]]"]
    by simp
qed

section \<open>An interrupt during polling\<close>

text \<open>
  Two methods on two workers, no callback. The first two batches precede the calls of
  \<open>submit\<close>; the third, before the first \<open>done()\<close> of the polling loop, starts both methods
  and finishes the first; the second method finishes in the last batch, which a
  \<open>result()\<close> waits for.
\<close>

definition slow_second :: "event list list" where
  "slow_second = [[], [], [Start 0, Start 1, Finish 0], [], [], [], [], [], [], [], [Finish 1]]"




section \<open>A failed task\<close>

text \<open>
  Three methods on three workers, no callback. The first three batches precede the
  calls of \<open>submit\<close>; the fourth, before the first \<open>done()\<close> of the polling loop, starts the
  three methods and finishes the first two; the third method finishes in the last
  batch, which \<open>shutdown\<close> waits for.
\<close>

definition second_failure :: "event list list" where
  "second_failure =
     [[], [], [], [Start 0, Start 1, Start 2, Finish 0, Finish 1], [], [], [], [], [], [], [],
      [Finish 2]]"

text \<open>
  Claim C4 as stated fails. Two methods have failed and a third is running. The polling
  loop finds future 0 done and raises its \<open>TaskError 1\<close>, the first error it observes,
  leaving futures 1 and 2 in the list. The sweep of the \<open>finally\<close> clause finds future 1
  done with an exception and raises \<open>TaskError 2\<close>: that, not \<open>TaskError 1\<close>, is what
  \<open>run_in_threads\<close> raises, and the sweep never reaches future 2.
\<close>

theorem first_error_counterexample:
  "launch [Inl (TaskError 1), Inl (TaskError 2), Inr (5::nat)] 0 False second_failure
     = Inr ([0, 1, 2],
         \<lparr>task = [Inl (TaskError 1), Inl (TaskError 2), Inr 5],
          state = [PENDING, PENDING, PENDING], registered = [False, False, False],
          calls = [], workers = 3,
          sched = [[Start 0, Start 1, Start 2, Finish 0, Finish 1], [], [], [], [], [], [], [],
                   [Finish 2]]\<rparr>)
   \<and> poll None [0, 1, 2] []
        \<lparr>task = [Inl (TaskError 1), Inl (TaskError 2), Inr (5::nat)],
         state = [PENDING, PENDING, PENDING], registered = [False, False, False],
         calls = [], workers = 3,
         sched = [[Start 0, Start 1, Start 2, Finish 0, Finish 1], [], [], [], [], [], [], [],
                  [Finish 2]]\<rparr>
     = Some ((Some (TaskError 1), [1, 2], []),
         \<lparr>task = [Inl (TaskError 1), Inl (TaskError 2), Inr 5],
          state = [FINISHED, FINISHED, RUNNING], registered = [False, False, False],
          calls = [], workers = 3, sched = [[], [], [], [Finish 2]]\<rparr>)
   \<and> run_in_threads [Inl (TaskError 1), Inl (TaskError 2), Inr (5::nat)] 0 False None
        second_failure
     = Some (Inl (TaskError 2),
         \<lparr>task = [Inl (TaskError 1), Inl (TaskError 2), Inr 5],
          state = [FINISHED, FINISHED, FINISHED], registered = [False, False, False],
          calls = [], workers = 3, sched = []\<rparr>)"
  by code_simp

text \<open>
  Claim C4, amended. The polling loop raises an error \<open>e1\<close> other than
  \<open>KeyboardInterrupt\<close> (which the handler would catch): the outcome of a future it has
  dropped from the list. Then the sweep of the \<open>finally\<close> clause is run over the futures
  \<open>fs\<close> still in the list. If the sweep never returns, neither does the call. If the
  sweep raises \<open>e2\<close>, it has stopped at a future of \<open>fs\<close> whose outcome \<open>e2\<close> is
  (\<open>CancelledError\<close> for a future that is cancelled, the error of its method otherwise):
  the futures before that one have finished, the futures after it were not visited, and
  \<open>e2\<close>, not \<open>e1\<close>, is raised by the call once the workers are joined. If the sweep
  completes, every future of \<open>fs\<close> has finished and the call raises \<open>e1\<close>. The call
  never returns a list, and when it raises every future of the pool is terminal.
\<close>

theorem polled_error_then_sweep:
  assumes "launch methods max_workers cb schedule = Inr (futures, w)"
    and "poll sigint futures [] w = Some ((Some e1, fs, rs), w1)"
    and "e1 \<noteq> KeyboardInterrupt"
  shows "(\<exists>g\<in>set futures. g \<notin> set fs \<and> is_done (state w1 ! g) \<and> outcome w1 g = Inl e1)
    \<and> (cancel_threads fs cb w1 = None
          \<longrightarrow> run_in_threads methods max_workers cb sigint schedule = None)
    \<and> (\<forall>e2 w2. cancel_threads fs cb w1 = Some (Inl e2, w2) \<longrightarrow>
          (\<exists>i<length fs. is_done (state w2 ! (fs ! i)) \<and> outcome w2 (fs ! i) = Inl e2
             \<and> (\<forall>j<i. state w2 ! (fs ! j) = FINISHED)
             \<and> cancel_threads (take (Suc i) fs) cb w1 = Some (Inl e2, w2))
          \<and> run_in_threads methods max_workers cb sigint schedule =
              (case shutdown w2 of None \<Rightarrow> None | Some w' \<Rightarrow> Some (Inl e2, w')))
    \<and> (\<forall>kept w2. cancel_threads fs cb w1 = Some (Inr kept, w2) \<longrightarrow>
          (\<forall>g\<in>set fs. state w2 ! g = FINISHED)
          \<and> run_in_threads methods max_workers cb sigint schedule
              = Some (Inl e1, pool_step w2))
    \<and> (\<forall>r w'. run_in_threads methods max_workers cb sigint schedule = Some (r, w')
          \<longrightarrow> isl r \<and> list_all is_done (state w'))"
proof -
  have sub: "set fs \<subseteq> set futures" and s1: "step\<^sup>*\<^sup>* w w1"
    using poll_sound [OF assms(2)] by (auto dest: pool_steps_steps)
  have v1: "valid fs w1"
    using launch_valid [OF assms(1)] sub steps_valid [OF s1] by (auto intro: valid_subset)
  have t: "try_except sigint cb futures [] w = Some ((Some e1, fs, rs), w1)"
    using assms(2,3) by (simp add: try_except_no_interrupt)
  note run = run_in_threads_launch [OF assms(1), of sigint]
  have "distinct futures" using launch_futures [OF assms(1)] by simp
  with assms(2,3) have polled:
    "\<exists>g\<in>set futures. g \<notin> set fs \<and> is_done (state w1 ! g) \<and> outcome w1 g = Inl e1"
    by (rule poll_raise_outcome)
  have none: "run_in_threads methods max_workers cb sigint schedule = None"
    if "cancel_threads fs cb w1 = None"
    using that by (simp add: run t finally_clause_def pool_exit_def)
  have raised: "(\<exists>i<length fs. is_done (state w2 ! (fs ! i)) \<and> outcome w2 (fs ! i) = Inl e2
          \<and> (\<forall>j<i. state w2 ! (fs ! j) = FINISHED)
          \<and> cancel_threads (take (Suc i) fs) cb w1 = Some (Inl e2, w2))
      \<and> run_in_threads methods max_workers cb sigint schedule =
          (case shutdown w2 of None \<Rightarrow> None | Some w' \<Rightarrow> Some (Inl e2, w'))"
    if sweep: "cancel_threads fs cb w1 = Some (Inl e2, w2)" for e2 w2
    using cancel_threads_raise [OF sweep v1] sweep
    by (simp add: run t finally_clause_def pool_exit_def)
  have kept: "(\<forall>g\<in>set fs. state w2 ! g = FINISHED)
      \<and> run_in_threads methods max_workers cb sigint schedule = Some (Inl e1, pool_step w2)"
    if sweep: "cancel_threads fs cb w1 = Some (Inr kept, w2)" for kept w2
  proof
    show "\<forall>g\<in>set fs. state w2 ! g = FINISHED"
      using cancel_threads_complete [OF sweep v1] by simp
    have "list_all is_done (state w2)"
      using assms(1,2) sweep by (rule sweep_complete_all_done)
    then have "shutdown w2 = Some (pool_step w2)" by (rule shutdown_all_done)
    with sweep show "run_in_threads methods max_workers cb sigint schedule
        = Some (Inl e1, pool_step w2)"
      by (simp add: run t finally_clause_def pool_exit_def)
  qed
  have ends: "isl r \<and> list_all is_done (state w')"
    if r: "run_in_threads methods max_workers cb sigint schedule = Some (r, w')" for r w'
  proof (cases "cancel_threads fs cb w1")
    case None
    with none r show ?thesis by simp
  next
    case (Some xw)
    obtain x w2 where xw: "xw = (x, w2)" by (cases xw)
    show ?thesis
    proof (cases x)
      case (Inl e2)
      with Some xw raised [of e2 w2] r show ?thesis
        by (auto split: option.splits dest: shutdown_done)
    next
      case (Inr ks)
      have "list_all is_done (state w2)"
        using assms(1,2) Some [unfolded xw Inr] by (rule sweep_complete_all_done)
      then have "list_all is_done (state (pool_step w2))" by (rule all_done_pool_step)
      with Some xw Inr kept [of ks w2] r show ?thesis by auto
    qed
  qed
  from polled none raised kept ends show ?thesis by blast
qed

text \<open>
  Claim C4, amended, on two workers: the first method fails, the second is running.
  The sweep cannot cancel it, waits for it, and the polled \<open>TaskError 1\<close> is raised.
\<close>

theorem polled_error_then_sweep_witness:
  "launch [Inl (TaskError 1), Inr (5::nat)] 0 False slow_second
     = Inr ([0, 1],
         \<lparr>task = [Inl (TaskError 1), Inr 5], state = [PENDING, PENDING],
          registered = [False, False], calls = [], workers = 2,
          sched = [[Start 0, Start 1, Finish 0], [], [], [], [], [], [], [], [Finish 1]]\<rparr>)
   \<and> poll None [0, 1] []
        \<lparr>task = [Inl (TaskError 1), Inr (5::nat)], state = [PENDING, PENDING],
         registered = [False, False], calls = [], workers = 2,
         sched = [[Start 0, Start 1, Finish 0], [], [], [], [], [], [], [], [Finish 1]]\<rparr>
     = Some ((Some (TaskError 1), [1], []),
         \<lparr>task = [Inl (TaskError 1), Inr 5], state = [FINISHED, RUNNING],
          registered = [False, False], calls = [], workers = 2,
          sched = [[], [], [], [], [Finish 1]]\<rparr>)
   \<and> TaskError 1 \<noteq> KeyboardInterrupt
   \<and> cancel_threads [1] False
        \<lparr>task = [Inl (TaskError 1), Inr (5::nat)], state = [FINISHED, RUNNING],
         registered = [False, False], calls = [], workers = 2,
         sched = [[], [], [], [], [Finish 1]]\<rparr>
     = Some (Inr [],
         \<lparr>task = [Inl (TaskError 1), Inr 5], state = [FINISHED, FINISHED],
          registered = [False, False], calls = [], workers = 2, sched = []\<rparr>)
   \<and> run_in_threads [Inl (TaskError 1), Inr (5::nat)] 0 False None slow_second
     = Some (Inl (TaskError 1),
         \<lparr>task = [Inl (TaskError 1), Inr 5], state = [FINISHED, FINISHED],
          registered = [False, False], calls = [], workers = 2, sched = []\<rparr>)"
proof -
  let ?w = "\<lparr>task = [Inl (TaskError 1), Inr (5::nat)], state = [PENDING, PENDING],
          registered = [False, False], calls = [], workers = 2,
          sched = [[Start 0, Start 1, Finish 0], [], [], [], [], [], [], [], [Finish 1]]\<rparr>"
  let ?w1 = "\<lparr>task = [Inl (TaskError 1), Inr (5::nat)], state = [FINISHED, RUNNING],
          registered = [False, False], calls = [], workers = 2,
          sched = [[], [], [], [], [Finish 1]]\<rparr>"
  let ?w2 = "\<lparr>task = [Inl (TaskError 1), Inr (5::nat)], state = [FINISHED, FINISHED],
          registered = [False, False], calls = [], workers = 2, sched = []\<rparr>"
  have l: "launch [Inl (TaskError 1), Inr (5::nat)] 0 False slow_second = Inr ([0, 1], ?w)"
    by code_simp
  have p: "poll None [0, 1] [] ?w = Some ((Some (TaskError 1), [1], []), ?w1)" by code_simp
  have n: "TaskError 1 \<noteq> KeyboardInterrupt" by simp
  have c: "cancel_threads [1] False ?w1 = Some (Inr [], ?w2)" by code_simp
  have s: "pool_step ?w2 = ?w2" by code_simp
  from polled_error_then_sweep [OF l p n] have
    "\<forall>kept w2. cancel_threads [1] False ?w1 = Some (Inr kept, w2) \<longrightarrow>
       run_in_threads [Inl (TaskError 1), Inr (5::nat)] 0 False None slow_second
         = Some (Inl (TaskError 1), pool_step w2)"
    by blast
  with c s have "run_in_threads [Inl (TaskError 1), Inr (5::nat)] 0 False None slow_second
      = Some (Inl (TaskError 1), ?w2)" by simp
  with l p n c show ?thesis by simp
qed

section \<open>How often the callback is called\<close>

text \<open>
  One method with a callback. The first batch precedes \<open>submit\<close>, the second
  \<open>add_done_callback\<close>, the next three the first pass of the polling loop (two calls of
  \<open>done()\<close> and the sleep), the last five the calls of a sweep on the future: \<open>done()\<close>
  twice, \<open>cancel()\<close>, and \<open>result()\<close>, which waits for the last batch.
\<close>

definition lone_task :: "event list list" where
  "lone_task = [[], [Start 0], [], [], [], [], [], [], [], [Finish 0]]"

text \<open>
  Claim C5 as stated fails. One method, running when Ctrl+C arrives after the first pass
  of the polling loop (two calls of \<open>done()\<close> and the sleep): the handler's sweep cannot cancel the future and calls the
  callback with \<open>False\<close>; when the method returns, the done-callback calls it with the
  future. One future, two invocations of the callback.
\<close>

theorem callback_twice_counterexample:
  "run_in_threads [Inr (7::nat)] 0 True (Some 3) lone_task
     = Some (Inr [],
         \<lparr>task = [Inr 7], state = [FINISHED], registered = [True],
          calls = [Flag False, Handle 0], workers = 1, sched = []\<rparr>)"
  by code_simp

text \<open>
  Claim C5, amended. In every run with a callback that comes to an end, by a list or
  by an exception, the callback has been called exactly once with each submitted
  future as its argument, as the done-callback of the future; every other invocation
  is a call with \<open>False\<close>, made by a sweep for a future it could not cancel.
\<close>

theorem done_callback_once:
  assumes "run_in_threads methods max_workers True sigint schedule = Some (r, w')"
  shows "(\<forall>f < length methods. count_list (calls w') (Handle f) = 1)
    \<and> (\<forall>a \<in> set (calls w'). a = Flag False \<or> (\<exists>f < length methods. a = Handle f))"
proof (cases "launch methods max_workers True schedule :: exn + nat list \<times> 'a world")
  case (Inl e)
  from launch_error [OF Inl, of sigint] assms show ?thesis by (auto simp: new_pool_def)
next
  case (Inr fw)
  obtain futures w where fw: "fw = (futures, w)" by (cases fw)
  have l: "launch methods max_workers True schedule = Inr (futures, w)" using Inr fw by simp
  have s: "step\<^sup>*\<^sup>* w w'" and d: "list_all is_done (state w')"
    using run_in_threads_steps [OF l assms] by simp_all
  have ok: "callbacks_ok w'" using s launch_callbacks [OF l] by (auto intro: callbacks_ok_steps)
  have reg: "registered w' = replicate (length methods) True"
    using launch_callbacks [OF l] steps_frame [OF s] by simp
  have len: "length (state w') = length methods"
    using launch_futures [OF l] steps_frame [OF s] by simp
  have once: "count_list (calls w') (Handle f) = 1" if "f < length methods" for f
    using that ok reg len d unfolding callbacks_ok_def by (simp add: list_all_length)
  have other: "a = Flag False \<or> (\<exists>f < length methods. a = Handle f)" if "a \<in> set (calls w')" for a
  proof (cases a)
    case (Handle f)
    have "count_list (calls w') (Handle f) \<noteq> 0"
      using that Handle by (simp add: count_list_0_iff)
    then have "f < length methods" using ok len unfolding callbacks_ok_def by (auto split: if_splits)
    with Handle show ?thesis by simp
  next
    case (Flag b)
    have "count_list (calls w') (Flag True) = 0" using ok unfolding callbacks_ok_def by simp
    then have "Flag True \<notin> set (calls w')" by (simp add: count_list_0_iff)
    with that Flag show ?thesis by (cases b) auto
  qed
  from once other show ?thesis by blast
qed

text \<open>
  Two methods on one worker, with a callback. The first two batches precede the calls
  of \<open>submit\<close>, the next two the calls of \<open>add_done_callback\<close>; the worker takes the first
  method (it cannot take the second), and finishes it before the first \<open>done()\<close> of the
  polling loop.
\<close>

definition one_worker :: "event list list" where
  "one_worker = [[], [], [Start 0, Start 1], [], [Finish 0]]"

text \<open>
  Claim C5, amended, on one worker and two methods: the first fails, and the second is
  cancelled by the sweep before the worker takes it; the callback is called once with
  each future.
\<close>

theorem done_callback_once_witness:
  "run_in_threads [Inl (TaskError 1), Inr (5::nat)] 1 True None one_worker
     = Some (Inl CancelledError,
         \<lparr>task = [Inl (TaskError 1), Inr 5], state = [FINISHED, CANCELLED],
          registered = [True, True], calls = [Handle 0, Handle 1], workers = 1, sched = []\<rparr>)
   \<and> count_list [Handle 0, Handle 1] (Handle 0) = 1
   \<and> count_list [Handle 0, Handle 1] (Handle 1) = 1"
proof -
  let ?w = "\<lparr>task = [Inl (TaskError 1), Inr (5::nat)], state = [FINISHED, CANCELLED],
          registered = [True, True], calls = [Handle 0, Handle 1], workers = 1, sched = []\<rparr>"
  have r: "run_in_threads [Inl (TaskError 1), Inr (5::nat)] 1 True None one_worker
      = Some (Inl CancelledError, ?w)" by code_simp
  from done_callback_once [OF r]
  have "\<forall>f<2. count_list [Handle 0, Handle 1] (Handle f) = 1" by simp
  then have "count_list [Handle 0, Handle 1] (Handle 0) = 1"
    "count_list [Handle 0, Handle 1] (Handle 1) = 1" by simp_all
  with r show ?thesis by simp
qed

section \<open>A second sweep\<close>

text \<open>Two sweeps in a row: the second one over the list the first one returned.\<close>

definition sweep_twice ::
  "nat list \<Rightarrow> bool \<Rightarrow> 'r world \<Rightarrow> ((exn + nat list) \<times> 'r world) option" where
  "sweep_twice futures cb w =
     (case cancel_threads futures cb w of
        Some (Inr kept, w') \<Rightarrow> cancel_threads kept cb w'
      | r \<Rightarrow> r)"

text \<open>The world a run with one method that returned \<open>1\<close> leaves behind.\<close>

definition settled_world :: "nat world" where
  "settled_world =
     \<lparr>task = [Inr 1], state = [FINISHED], registered = [True], calls = [Handle 0],
      workers = 1, sched = []\<rparr>"

text \<open>
  Claim C6 as stated fails: the sweep over one future that has finished successfully
  returns that future, and the second sweep, over the list the first one returned,
  returns it again, not the empty list.
\<close>

theorem second_sweep_counterexample:
  "settled [0] settled_world \<and> sched settled_world = []
   \<and> cancel_threads [0] True settled_world = Some (Inr [0], settled_world)
   \<and> sweep_twice [0] True settled_world = Some (Inr [0], settled_world)"
  by code_simp

text \<open>
  Claim C6, amended. For futures that are all terminal, and with no activity of the
  pool, the sweep raises the exception of the first future that is cancelled, or has
  failed with an exception that tests true, and otherwise returns the whole list it was
  given (empty only when the list was empty). In both cases the world is left as it
  was: no callback is invoked and no future changes. A second sweep over what the first
  one returned is the first one again: \<open>sweep_twice\<close> equals one sweep.
\<close>

theorem settled_sweep_idempotent:
  "settled fs w \<Longrightarrow> sched w = [] \<Longrightarrow>
   cancel_threads fs cb w =
     Some (case sweep_raise w fs of Some e \<Rightarrow> Inl e | None \<Rightarrow> Inr fs, w)
   \<and> sweep_twice fs cb w = cancel_threads fs cb w"
  by (simp add: sweep_twice_def cancel_threads_settled_idle split: option.splits)

text \<open>Claim C6, amended, on the future of \<open>settled_world\<close>.\<close>

theorem settled_sweep_idempotent_witness:
  "settled [0] settled_world \<and> sched settled_world = []
   \<and> cancel_threads [0] False settled_world = Some (Inr [0], settled_world)
   \<and> sweep_twice [0] False settled_world = cancel_threads [0] False settled_world"
proof -
  have s: "settled [0] settled_world" by code_simp
  have i: "sched settled_world = []" by (simp add: settled_world_def)
  have n: "sweep_raise settled_world [0] = None" by code_simp
  show ?thesis using s i n settled_sweep_idempotent [OF s i, of False] by simp
qed

section \<open>An error during the final sweep\<close>

text \<open>
  When the sweep of the \<open>finally\<close> clause raises, its exception replaces whatever left
  the \<open>try\<close> block and its handler, and is raised by \<open>run_in_threads\<close> once the workers are
  joined.
\<close>

lemma finally_error_replaces:
  "launch methods max_workers cb schedule = Inr (futures, w) \<Longrightarrow>
   try_except sigint cb futures [] w = Some ((exc, fs, rs), w1) \<Longrightarrow>
   cancel_threads fs cb w1 = Some (Inl e2, w2) \<Longrightarrow>
   run_in_threads methods max_workers cb sigint schedule =
     (case shutdown w2 of None \<Rightarrow> None | Some w' \<Rightarrow> Some (Inl e2, w'))"
  by (simp add: run_in_threads_launch finally_clause_def pool_exit_def)

text \<open>
  Two methods on two workers, no callback. The first two batches precede the calls of
  \<open>submit\<close>; the third, before the first \<open>done()\<close> of the polling loop, starts both methods
  and finishes the first; the second method finishes in the last batch, before the
  second \<open>done()\<close> the sweep calls on its future.
\<close>

definition late_failure :: "event list list" where
  "late_failure = [[], [], [Start 0, Start 1, Finish 0], [], [], [], [], [Finish 1]]"

text \<open>Two methods on two workers that have both finished when the polling loop starts.\<close>

definition two_failures :: "event list list" where
  "two_failures = [[], [], [Start 0, Start 1], [Finish 0, Finish 1]]"

text \<open>
  Claim C7: an error that appears during the sweep of the \<open>finally\<close> clause is the one
  raised to the caller, and is never swallowed. The sweep is written to raise for every
  future that has failed (\<open>throw exception, if it's not here\<close>) and to wait for every
  future that is still running (\<open>join exception back to main thread\<close>), but it decides
  between the two with two separate calls of \<open>done()\<close>. Both methods fail here. The
  polling loop raises the \<open>TaskError 1\<close> of future 0 while future 1 is running. In the
  sweep, the first \<open>done()\<close> of future 1 is false, so the branch for failed futures is
  not taken; the method fails, the second \<open>done()\<close> is true, so the branch that cancels
  and waits is not taken either, and the future is kept as a success. \<open>run_in_threads\<close>
  raises \<open>TaskError 1\<close>, and \<open>TaskError 2\<close>, the outcome of future 1, is never raised. The
  second run shows the other way to the same end, on any schedule: \<open>future.exception()\<close>
  is tested for its truth value, so a future that failed with an exception that tests
  false is kept as a success as well.
\<close>

theorem cleanup_error_swallowed:
  "launch [Inl (TaskError 1), Inl (TaskError 2) :: exn + nat] 0 False late_failure
     = Inr ([0, 1],
         \<lparr>task = [Inl (TaskError 1), Inl (TaskError 2)], state = [PENDING, PENDING],
          registered = [False, False], calls = [], workers = 2,
          sched = [[Start 0, Start 1, Finish 0], [], [], [], [], [Finish 1]]\<rparr>)
   \<and> poll None [0, 1] []
        \<lparr>task = [Inl (TaskError 1), Inl (TaskError 2) :: exn + nat], state = [PENDING, PENDING],
         registered = [False, False], calls = [], workers = 2,
         sched = [[Start 0, Start 1, Finish 0], [], [], [], [], [Finish 1]]\<rparr>
     = Some ((Some (TaskError 1), [1], []),
         \<lparr>task = [Inl (TaskError 1), Inl (TaskError 2)], state = [FINISHED, RUNNING],
          registered = [False, False], calls = [], workers = 2, sched = [[], [Finish 1]]\<rparr>)
   \<and> cancel_threads [1] False
        \<lparr>task = [Inl (TaskError 1), Inl (TaskError 2) :: exn + nat], state = [FINISHED, RUNNING],
         registered = [False, False], calls = [], workers = 2, sched = [[], [Finish 1]]\<rparr>
     = Some (Inr [1],
         \<lparr>task = [Inl (TaskError 1), Inl (TaskError 2)], state = [FINISHED, FINISHED],
          registered = [False, False], calls = [], workers = 2, sched = []\<rparr>)
   \<and> outcome
        \<lparr>task = [Inl (TaskError 1), Inl (TaskError 2) :: exn + nat], state = [FINISHED, FINISHED],
         registered = [False, False], calls = [], workers = 2, sched = []\<rparr> 1
     = Inl (TaskError 2)
   \<and> run_in_threads [Inl (TaskError 1), Inl (TaskError 2) :: exn + nat] 0 False None late_failure
     = Some (Inl (TaskError 1),
         \<lparr>task = [Inl (TaskError 1), Inl (TaskError 2)], state = [FINISHED, FINISHED],
          registered = [False, False], calls = [], workers = 2, sched = []\<rparr>)
   \<and> cancel_threads [1] False
        \<lparr>task = [Inl (TaskError 1), Inl (FalsyError 2) :: exn + nat], state = [FINISHED, FINISHED],
         registered = [False, False], calls = [], workers = 2, sched = []\<rparr>
     = Some (Inr [1],
         \<lparr>task = [Inl (TaskError 1), Inl (FalsyError 2)], state = [FINISHED, FINISHED],
          registered = [False, False], calls = [], workers = 2, sched = []\<rparr>)
   \<and> run_in_threads [Inl (TaskError 1), Inl (FalsyError 2) :: exn + nat] 0 False None two_failures
     = Some (Inl (TaskError 1),
         \<lparr>task = [Inl (TaskError 1), Inl (FalsyError 2)], state = [FINISHED, FINISHED],
          registered = [False, False], calls = [], workers = 2, sched = []\<rparr>)"
  by code_simp

section \<open>A future that cannot be cancelled\<close>

text \<open>One future whose method is running and will raise.\<close>

definition running_world :: "nat world" where
  "running_world =
     \<lparr>task = [Inl (TaskError 3)], state = [RUNNING], registered = [True], calls = [],
      workers = 1, sched = [[], [], [], [], [Finish 0]]\<rparr>"

text \<open>
  Claim C8. The sweep, with a callback, has passed the futures \<open>before\<close> and reaches
  \<open>f\<close>, which is not done at either test of \<open>done()\<close>, and \<open>cancel()\<close> fails. Then the
  callback is called with \<open>False\<close> in the world \<open>cancel()\<close> left, and only then \<open>result()\<close>
  waits for the future: the sweep never returns if the future never finishes, the
  future is \<open>FINISHED\<close> when the wait ends, its exception is raised out of the sweep if
  the method failed, and the sweep goes on with the futures \<open>after\<close>, without keeping
  \<open>f\<close>, if it succeeded.
\<close>

theorem failed_cancel_awaits_outcome:
  assumes "valid (before @ [f]) w"
    and "cancel_threads before True w = Some (Inr kept, w0)"
    and "future_done f w0 = (False, w1)"
    and "future_done f w1 = (False, w2)"
    and "future_cancel f w2 = (False, w3)"
  shows "cancel_threads (before @ f # after) True w =
      (case wait_done f (pool_step (completed_callback (Flag False) w3)) of
         None \<Rightarrow> None
       | Some w4 \<Rightarrow>
           (case task w ! f of
              Inl e \<Rightarrow> Some (Inl e, w4)
            | Inr v \<Rightarrow> cancel_loop after True kept w4))
    \<and> (\<forall>w4. wait_done f (pool_step (completed_callback (Flag False) w3)) = Some w4
          \<longrightarrow> state w4 ! f = FINISHED)"
proof -
  let ?w = "completed_callback (Flag False) w3"
  have vb: "valid before w" using assms(1) by (simp add: valid_def)
  have "step\<^sup>*\<^sup>* w w0" using assms(2) vb by (rule steps_cancel_threads)
  moreover have "step\<^sup>*\<^sup>* w0 w1" using assms(3) by (rule steps_future_done)
  moreover have "step\<^sup>*\<^sup>* w1 w2" using assms(4) by (rule steps_future_done)
  moreover have w3: "w3 = pool_step w2" using assms(5) by (simp add: future_cancel_False)
  ultimately have t3: "task w3 = task w" by (simp add: steps_frame)
  have st: "state (pool_step ?w) ! f = RUNNING \<or> state (pool_step ?w) ! f = FINISHED"
  proof (rule pool_step_started)
    have "state w3 ! f = RUNNING \<or> state w3 ! f = FINISHED"
      using future_cancel_False [OF assms(5)] by blast
    then show "state ?w ! f = RUNNING \<or> state ?w ! f = FINISHED"
      by (simp add: completed_callback_def)
  qed
  have fin: "state w4 ! f = FINISHED" and tk: "task w4 = task w"
    if "wait_done f (pool_step ?w) = Some w4" for w4
  proof -
    show "state w4 ! f = FINISHED" using that st by (rule wait_done_started)
    have "step\<^sup>*\<^sup>* (pool_step ?w) w4" using that by (rule steps_wait_done)
    then have "task w4 = task (pool_step ?w)" by (simp add: steps_frame)
    then show "task w4 = task w" using t3 by (simp add: completed_callback_def)
  qed
  have cb: "cancel_branch f True w2 = future_result f ?w"
    using assms(5) by (simp add: cancel_branch_def)
  have one: "cancel_one f True w0 =
      (case future_result f ?w of
         None \<Rightarrow> None
       | Some (Inl e, w4) \<Rightarrow> Some (Inl e, w4)
       | Some (Inr v, w4) \<Rightarrow> Some (Inr False, w4))"
    using assms(3,4) by (simp add: cancel_one_def cb truth_value_def)
  have "cancel_threads (before @ f # after) True w =
      (case wait_done f (pool_step ?w) of
         None \<Rightarrow> None
       | Some w4 \<Rightarrow> (case task w ! f of Inl e \<Rightarrow> Some (Inl e, w4)
                       | Inr v \<Rightarrow> cancel_loop after True kept w4))"
  proof (cases "wait_done f (pool_step ?w)")
    case None
    then have "future_result f ?w = None" by (simp add: future_result_def)
    with one None assms(2) show ?thesis
      by (simp add: cancel_threads_def cancel_loop_append)
  next
    case (Some w4)
    then have "future_result f ?w = Some (task w ! f, w4)"
      using fin [OF Some] tk [OF Some] by (simp add: future_result_def)
    with one Some assms(2) show ?thesis
      by (cases "task w ! f") (simp_all add: cancel_threads_def cancel_loop_append)
  qed
  with fin show ?thesis by simp
qed

text \<open>
  Claim C8 on \<open>running_world\<close>: \<open>cancel()\<close> fails, the callback gets \<open>False\<close>, the sweep waits
  for the method to finish and raises its error.
\<close>

theorem failed_cancel_awaits_outcome_witness:
  "valid ([] @ [0]) running_world
   \<and> cancel_threads [] True running_world = Some (Inr [], running_world)
   \<and> future_done 0 running_world = (False, running_world\<lparr>sched := [[], [], [], [Finish 0]]\<rparr>)
   \<and> future_done 0 (running_world\<lparr>sched := [[], [], [], [Finish 0]]\<rparr>)
       = (False, running_world\<lparr>sched := [[], [], [Finish 0]]\<rparr>)
   \<and> future_cancel 0 (running_world\<lparr>sched := [[], [], [Finish 0]]\<rparr>)
       = (False, running_world\<lparr>sched := [[], [Finish 0]]\<rparr>)
   \<and> cancel_threads ([] @ 0 # []) True running_world
       = Some (Inl (TaskError 3),
           running_world\<lparr>state := [FINISHED], calls := [Flag False, Handle 0], sched := []\<rparr>)
   \<and> state (running_world\<lparr>state := [FINISHED], calls := [Flag False, Handle 0], sched := []\<rparr>) ! 0
       = FINISHED"
proof -
  let ?w1 = "running_world\<lparr>sched := [[], [], [], [Finish 0]]\<rparr>"
  let ?w2 = "running_world\<lparr>sched := [[], [], [Finish 0]]\<rparr>"
  let ?w3 = "running_world\<lparr>sched := [[], [Finish 0]]\<rparr>"
  let ?w4 = "running_world\<lparr>state := [FINISHED], calls := [Flag False, Handle 0], sched := []\<rparr>"
  have v: "valid ([] @ [0]) running_world" by code_simp
  have b: "cancel_threads [] True running_world = Some (Inr [], running_world)" by code_simp
  have d1: "future_done 0 running_world = (False, ?w1)" by code_simp
  have d2: "future_done 0 ?w1 = (False, ?w2)" by code_simp
  have c: "future_cancel 0 ?w2 = (False, ?w3)" by code_simp
  have w: "wait_done 0 (pool_step (completed_callback (Flag False) ?w3)) = Some ?w4"
    by code_simp
  have t: "task running_world ! 0 = Inl (TaskError 3)" by code_simp
  show ?thesis
    using v b d1 d2 c w t failed_cancel_awaits_outcome [OF v b d1 d2 c, of "[]"] by simp
qed

section \<open>No methods\<close>

text \<open>
  Claim C9. With an empty list of methods and \<open>max_workers \<le> 0\<close> the worker count is
  computed as the length of the list, zero, and the constructor of the pool raises:
  \<open>run_in_threads\<close> raises \<open>ValueError\<close> and does not return the empty list. No future
  exists in the world it leaves.
\<close>

theorem empty_batch_raises:
  "max_workers \<le> 0 \<Longrightarrow>
   run_in_threads [] max_workers cb sigint schedule = Some (Inl ValueError, new_pool 0 schedule)"
  by (simp add: run_in_threads_def ThreadPoolExecutor_def)

text \<open>Claim C9 at the default \<open>max_workers = 0\<close>.\<close>

theorem empty_batch_raises_witness:
  "(0::int) \<le> 0 \<and>
   run_in_threads ([] :: (exn + nat) list) 0 True None [[Start 0]]
     = Some (Inl ValueError, new_pool 0 [[Start 0]])"
  using empty_batch_raises [of 0 True None "[[Start 0]]"] by simp

section \<open>A future that is cancelled\<close>

text \<open>One worker: future 0 has finished, futures 1 and 2 are still queued.\<close>

definition queue_world :: "nat world" where
  "queue_world =
     \<lparr>task = [Inr 1, Inr 2, Inr 3], state = [FINISHED, PENDING, PENDING],
      registered = [True, True, True], calls = [Handle 0], workers = 1, sched = []\<rparr>"

text \<open>
  Claim C10. The sweep has passed the futures \<open>before\<close> and reaches \<open>f\<close>, which is not
  done at either test of \<open>done()\<close>, and \<open>cancel()\<close> succeeds. Then \<open>result()\<close> is called all
  the same (it consumes one more batch), finds the future cancelled and raises
  \<open>CancelledError\<close> out of the sweep: no list of successful futures is returned, and the
  futures \<open>after\<close> play no part in the outcome or in the world the sweep leaves.
\<close>

theorem cancelled_future_aborts_sweep:
  assumes "valid (before @ [f]) w"
    and "cancel_threads before cb w = Some (Inr kept, w0)"
    and "future_done f w0 = (False, w1)"
    and "future_done f w1 = (False, w2)"
    and "future_cancel f w2 = (True, w3)"
  shows "cancel_threads (before @ f # after) cb w = Some (Inl CancelledError, pool_step w3)
    \<and> state (pool_step w3) ! f = CANCELLED"
proof -
  have vb: "valid before w" and f: "f < length (state w)"
    using assms(1) by (simp_all add: valid_def)
  have "step\<^sup>*\<^sup>* w w0" using assms(2) vb by (rule steps_cancel_threads)
  moreover have "step\<^sup>*\<^sup>* w0 w1" using assms(3) by (rule steps_future_done)
  moreover have "step\<^sup>*\<^sup>* w1 w2" using assms(4) by (rule steps_future_done)
  ultimately have "f < length (state w2)" using f by (simp add: steps_frame)
  with assms(5) have c: "state w3 ! f = CANCELLED" by (rule future_cancel_True)
  then have d: "is_done (state w3 ! f)" by (simp add: is_done_def)
  have "cancel_branch f cb w2 = Some (Inl CancelledError, pool_step w3)"
    using assms(5) c d by (simp add: cancel_branch_def future_result_done)
  then have "cancel_one f cb w0 = Some (Inl CancelledError, pool_step w3)"
    using assms(3,4) by (simp add: cancel_one_def truth_value_def)
  then have "cancel_loop (f # after) cb kept w0 = Some (Inl CancelledError, pool_step w3)"
    by simp
  then have "cancel_threads (before @ f # after) cb w = Some (Inl CancelledError, pool_step w3)"
    using assms(2) by (simp add: cancel_threads_def cancel_loop_append)
  moreover have "state (pool_step w3) ! f = CANCELLED"
    using c d by (simp add: pool_step_done_stable)
  ultimately show ?thesis by simp
qed

text \<open>
  Claim C10 on \<open>queue_world\<close>: the sweep keeps future 0, cancels future 1 and raises;
  future 2 is left pending.
\<close>

theorem cancelled_future_aborts_sweep_witness:
  "valid ([0] @ [1]) queue_world
   \<and> cancel_threads [0] True queue_world = Some (Inr [0], queue_world)
   \<and> future_done 1 queue_world = (False, queue_world)
   \<and> future_cancel 1 queue_world
       = (True, queue_world\<lparr>state := [FINISHED, CANCELLED, PENDING], calls := [Handle 0, Handle 1]\<rparr>)
   \<and> cancel_threads ([0] @ 1 # [2]) True queue_world
       = Some (Inl CancelledError,
           queue_world\<lparr>state := [FINISHED, CANCELLED, PENDING], calls := [Handle 0, Handle 1]\<rparr>)"
proof -
  let ?w3 = "queue_world\<lparr>state := [FINISHED, CANCELLED, PENDING], calls := [Handle 0, Handle 1]\<rparr>"
  have v: "valid ([0] @ [1]) queue_world" by code_simp
  have b: "cancel_threads [0] True queue_world = Some (Inr [0], queue_world)" by code_simp
  have d: "future_done 1 queue_world = (False, queue_world)" by code_simp
  have c: "future_cancel 1 queue_world = (True, ?w3)" by code_simp
  have p: "pool_step ?w3 = ?w3" by code_simp
  show ?thesis
    using v b d c p cancelled_future_aborts_sweep [OF v b d d c, of "[2]"] by simp
qed

end
